theory Spec2Isabelle
  imports Complex_Main "HOL-Library.AList" "HOL-Library.Multiset"
begin

section \<open>CacheEngine: \<open>createLRUCache\<close> of src/cache/LRUCache.ts\<close>

text \<open>
  The closure returned by \<open>createLRUCache\<close> owns the variables \<open>cache\<close>, \<open>accessOrder\<close>,
  \<open>pendingFetches\<close>, \<open>stats\<close>, \<open>totalResponseTime\<close> and \<open>totalRequests\<close>; they are the
  fields of the state record below and every operation passes the state explicitly.
  A JavaScript \<open>Map\<close> keeps its keys in insertion order, overwrites in place and appends
  a new key at the end: this is an association list under \<open>AList.update\<close> and
  \<open>AList.delete\<close>, looked up with \<open>map_of\<close>. Numbers that the code only counts,
  adds and compares are integers. Every \<open>Date.now()\<close> read is an argument of the
  operation that reads it. A cached value has type \<open>T | null\<close>: it is an \<open>'a option\<close>
  whose \<open>None\<close> is JavaScript's \<open>null\<close>.
\<close>

type_synonym key = string

record 'a CacheEntry =
  data :: "'a option"
  expiresAt :: int
  lastAccessed :: int
  size_entry :: int

record CacheStats =
  hits :: int
  misses :: int
  size_stats :: int
  totalSizeBytes :: int
  averageResponseTime :: rat
  evictions :: int
  staleEntriesCleaned :: int

record CacheOptions =
  maxSize :: int
  ttl :: int
  cleanupInterval :: int

text \<open>
  A settled promise is fulfilled with a value or rejected with an error (the error is
  represented by its message). \<open>fetchPromise\<close> objects live in the heap: \<open>promises\<close>
  is that heap, a promise's identity is its index, and each cell keeps what the
  suspended closure of \<open>getOrSet\<close> has captured (\<open>key\<close>, \<open>customTtl\<close>) beside the
  promise's status (\<open>None\<close> while pending).
\<close>

datatype 'a settled = Fulfilled "'a option" | Rejected string

record 'a fetch =
  fetch_key :: key
  fetch_ttl :: "int option"
  fetch_status :: "'a settled option"

record 'a cstate =
  cache :: "(key \<times> 'a CacheEntry) list"
  accessOrder :: "key list"
  pendingFetches :: "(key \<times> nat) list"
  stats :: CacheStats
  totalResponseTime :: int
  totalRequests :: int
  promises :: "'a fetch list"

definition defaultOptions :: CacheOptions where
  "defaultOptions = \<lparr>maxSize = 100, ttl = 60000, cleanupInterval = 10000\<rparr>"

definition initial :: "'a cstate" where
  "initial =
     \<lparr>cache = [], accessOrder = [], pendingFetches = [],
      stats = \<lparr>hits = 0, misses = 0, size_stats = 0, totalSizeBytes = 0,
               averageResponseTime = 0, evictions = 0, staleEntriesCleaned = 0\<rparr>,
      totalResponseTime = 0, totalRequests = 0, promises = []\<rparr>"

text \<open>\<open>indexOf\<close> finds the first occurrence and \<open>splice(index, 1)\<close> removes it.\<close>

definition removeFromAccessOrder :: "key \<Rightarrow> 'a cstate \<Rightarrow> 'a cstate" where
  "removeFromAccessOrder k s = s\<lparr>accessOrder := remove1 k (accessOrder s)\<rparr>"

definition updateAccessOrder :: "key \<Rightarrow> 'a cstate \<Rightarrow> 'a cstate" where
  "updateAccessOrder k s =
     (let s1 = removeFromAccessOrder k s in s1\<lparr>accessOrder := k # accessOrder s1\<rparr>)"

definition evictLRU :: "'a cstate \<Rightarrow> 'a cstate" where
  "evictLRU s =
     (if accessOrder s = [] then s
      else
        let lruKey = last (accessOrder s);
            s1 = s\<lparr>accessOrder := butlast (accessOrder s)\<rparr>
        in case map_of (cache s1) lruKey of
             None \<Rightarrow> s1
           | Some entry \<Rightarrow>
               let c = AList.delete lruKey (cache s1)
               in s1\<lparr>cache := c,
                     stats := (stats s1)\<lparr>totalSizeBytes := totalSizeBytes (stats s1) - size_entry entry,
                                         evictions := evictions (stats s1) + 1,
                                         size_stats := int (length c)\<rparr>\<rparr>)"

definition updateStats :: "int \<Rightarrow> 'a cstate \<Rightarrow> 'a cstate" where
  "updateStats responseTime s =
     s\<lparr>totalResponseTime := totalResponseTime s + responseTime,
       totalRequests := totalRequests s + 1\<rparr>"

definition deleteEntry :: "key \<Rightarrow> 'a cstate \<Rightarrow> bool \<times> 'a cstate" where
  "deleteEntry k s =
     (case map_of (cache s) k of
        Some entry \<Rightarrow>
          let s1 = s\<lparr>stats := (stats s)\<lparr>totalSizeBytes := totalSizeBytes (stats s) - size_entry entry\<rparr>\<rparr>;
              s2 = removeFromAccessOrder k s1;
              c = AList.delete k (cache s2)
          in (True, s2\<lparr>cache := c, stats := (stats s2)\<lparr>size_stats := int (length c)\<rparr>\<rparr>)
      | None \<Rightarrow> (False, s))"

text \<open>
  \<open>get\<close> reads the clock twice: \<open>now\<close> for the expiry test and \<open>now'\<close> for
  \<open>lastAccessed\<close>. The entry object is mutated in place, which is an update of the
  association list at its key.
\<close>

definition get :: "int \<Rightarrow> int \<Rightarrow> key \<Rightarrow> 'a cstate \<Rightarrow> 'a option \<times> 'a cstate" where
  "get now now' k s =
     (case map_of (cache s) k of
        None \<Rightarrow> (None, s\<lparr>stats := (stats s)\<lparr>misses := misses (stats s) + 1\<rparr>\<rparr>)
      | Some entry \<Rightarrow>
          if now > expiresAt entry then
            (let s1 = snd (deleteEntry k s)
             in (None, s1\<lparr>stats := (stats s1)\<lparr>misses := misses (stats s1) + 1\<rparr>\<rparr>))
          else
            (let s1 = updateAccessOrder k s;
                 s2 = s1\<lparr>cache := AList.update k (entry\<lparr>lastAccessed := now'\<rparr>) (cache s1)\<rparr>
             in (data entry, s2\<lparr>stats := (stats s2)\<lparr>hits := hits (stats s2) + 1\<rparr>\<rparr>)))"

text \<open>
  \<open>calculateSize\<close> serialises with \<open>JSON.stringify\<close> and falls back to 1024; it is a
  parameter here. \<open>customTtl || config.ttl\<close> and \<open>size || calculateSize(data)\<close> take
  the right operand when the left one is \<open>undefined\<close> or 0.
\<close>

definition set_cache ::
  "('a option \<Rightarrow> int) \<Rightarrow> CacheOptions \<Rightarrow> int \<Rightarrow> key \<Rightarrow> 'a option \<Rightarrow> int option \<Rightarrow> int option
     \<Rightarrow> 'a cstate \<Rightarrow> 'a cstate" where
  "set_cache calculateSize config now k d customTtl sz s =
     (let ttl' = (case customTtl of None \<Rightarrow> ttl config
                  | Some t \<Rightarrow> if t = 0 then ttl config else t);
          entrySize = (case sz of None \<Rightarrow> calculateSize d
                       | Some n \<Rightarrow> if n = 0 then calculateSize d else n);
          entry = \<lparr>data = d, expiresAt = now + ttl', lastAccessed = now, size_entry = entrySize\<rparr>;
          s1 = (if int (length (cache s)) \<ge> maxSize config \<and> map_of (cache s) k = None
                then evictLRU s else s);
          isUpdate = (map_of (cache s1) k \<noteq> None);
          s2 = s1\<lparr>cache := AList.update k entry (cache s1)\<rparr>;
          s3 = updateAccessOrder k s2;
          s4 = s3\<lparr>stats := (stats s3)\<lparr>size_stats := int (length (cache s3))\<rparr>\<rparr>
      in if isUpdate then
           (let s5 = (case map_of (cache s4) k of
                        Some oldEntry \<Rightarrow>
                          s4\<lparr>stats := (stats s4)\<lparr>totalSizeBytes :=
                                totalSizeBytes (stats s4) - size_entry oldEntry\<rparr>\<rparr>
                      | None \<Rightarrow> s4)
            in s5\<lparr>stats := (stats s5)\<lparr>totalSizeBytes := totalSizeBytes (stats s5) + entrySize\<rparr>\<rparr>)
         else s4\<lparr>stats := (stats s4)\<lparr>totalSizeBytes := totalSizeBytes (stats s4) + entrySize\<rparr>\<rparr>)"

definition deleteFn :: "key \<Rightarrow> 'a cstate \<Rightarrow> bool \<times> 'a cstate" where
  "deleteFn k s = deleteEntry k s"

definition clear :: "'a cstate \<Rightarrow> 'a cstate" where
  "clear s =
     s\<lparr>cache := [], accessOrder := [], pendingFetches := [],
       stats := \<lparr>hits = 0, misses = 0, size_stats = 0, totalSizeBytes = 0,
                 averageResponseTime = 0, evictions = 0, staleEntriesCleaned = 0\<rparr>\<rparr>"

definition getStats :: "'a cstate \<Rightarrow> CacheStats" where
  "getStats s =
     (let totalRequests' = hits (stats s) + misses (stats s);
          averageResponseTime' =
            (if totalRequests' > 0 then averageResponseTime (stats s) / of_int totalRequests' else 0)
      in \<lparr>hits = hits (stats s), misses = misses (stats s), size_stats = size_stats (stats s),
          totalSizeBytes = totalSizeBytes (stats s), averageResponseTime = averageResponseTime',
          evictions = evictions (stats s), staleEntriesCleaned = staleEntriesCleaned (stats s)\<rparr>)"

definition getKeys :: "'a cstate \<Rightarrow> key list" where
  "getKeys s = map fst (cache s)"

definition has :: "int \<Rightarrow> key \<Rightarrow> 'a cstate \<Rightarrow> bool \<times> 'a cstate" where
  "has now k s =
     (case map_of (cache s) k of
        None \<Rightarrow> (False, s)
      | Some entry \<Rightarrow>
          if now > expiresAt entry then (False, snd (deleteEntry k s)) else (True, s))"

text \<open>
  The sweep iterates over the entries of the map and deletes the expired ones as it
  goes; deleting the entry under the iterator does not disturb the iteration, so the loop
  visits the entries that were present when it started.
\<close>

definition cleanupStaleEntries :: "int \<Rightarrow> 'a cstate \<Rightarrow> 'a cstate" where
  "cleanupStaleEntries now s =
     (let (s1, cleanedCount) =
            fold (\<lambda>(k, entry) (t, n).
                    if now > expiresAt entry then (snd (deleteEntry k t), n + 1) else (t, n))
                 (cache s) (s, 0 :: int)
      in if cleanedCount > 0
         then s1\<lparr>stats := (stats s1)\<lparr>staleEntriesCleaned :=
                   staleEntriesCleaned (stats s1) + cleanedCount\<rparr>\<rparr>
         else s1)"

subsection \<open>\<open>getOrSet\<close>: the steps between suspension points\<close>

text \<open>
  \<open>getOrSet\<close> is an \<open>async\<close> function on a single-threaded event loop: its code runs
  without interruption from one \<open>await\<close> to the next. It has three such steps.

  \<^item> \<open>getOrSet_call\<close>, from the call to the first suspension. With a registration in
    \<open>pendingFetches\<close> the caller gets that promise. Otherwise \<open>get\<close> runs; a value that
    is not \<open>null\<close> is returned after \<open>updateStats\<close>. Otherwise the inner \<open>async\<close> closure
    starts and runs up to its \<open>await fetchFn()\<close>, which calls the supplier. A supplier
    that returns a promise suspends the closure, whose promise is then registered. A
    supplier that throws before returning a promise runs the \<open>finally\<close> block at once
    (the key is not registered yet), the closure's promise is rejected, and line 157
    registers that promise.
  \<^item> \<open>fetch_settle\<close>, the rest of the closure once the supplier's promise has settled:
    \<open>calculateSize\<close>, \<open>set\<close> and the \<open>finally\<close> block on fulfilment, the \<open>finally\<close>
    block alone on rejection.
  \<^item> \<open>caller_resume\<close>, the rest of \<open>getOrSet\<close> after \<open>await fetchPromise\<close> for the
    caller that started the fetch: \<open>updateStats\<close> when the promise was fulfilled.

  The result of \<open>getOrSet_call\<close> says what the caller holds; \<open>Started\<close> is the only
  result for which the supplier has been called.
\<close>

datatype supplier = ReturnsPromise | Throws string

datatype 'a call = Joined nat | Hit 'a | Started nat int

definition getOrSet_call ::
  "key \<Rightarrow> supplier \<Rightarrow> int option \<Rightarrow> int \<Rightarrow> int \<Rightarrow> int \<Rightarrow> int \<Rightarrow> 'a cstate \<Rightarrow> 'a call \<times> 'a cstate" where
  "getOrSet_call k fetchFn customTtl startTime now now' now'' s =
     (case map_of (pendingFetches s) k of
        Some p \<Rightarrow> (Joined p, s)
      | None \<Rightarrow>
          (case get now now' k s of
             (Some cachedData, s1) \<Rightarrow> (Hit cachedData, updateStats (now'' - startTime) s1)
           | (None, s1) \<Rightarrow>
               let p = length (promises s1) in
               (case fetchFn of
                  ReturnsPromise \<Rightarrow>
                    (Started p startTime,
                     s1\<lparr>promises := promises s1 @
                           [\<lparr>fetch_key = k, fetch_ttl = customTtl, fetch_status = None\<rparr>],
                        pendingFetches := AList.update k p (pendingFetches s1)\<rparr>)
                | Throws e \<Rightarrow>
                    (Started p startTime,
                     s1\<lparr>promises := promises s1 @
                           [\<lparr>fetch_key = k, fetch_ttl = customTtl,
                             fetch_status = Some (Rejected e)\<rparr>],
                        pendingFetches :=
                          AList.update k p (AList.delete k (pendingFetches s1))\<rparr>))))"

text \<open>
  Only a fetch that was started and has not settled can settle: for any other \<open>p\<close> the
  step does nothing.
\<close>

definition fetch_settle ::
  "('a option \<Rightarrow> int) \<Rightarrow> CacheOptions \<Rightarrow> nat \<Rightarrow> 'a settled \<Rightarrow> int \<Rightarrow> 'a cstate \<Rightarrow> 'a cstate" where
  "fetch_settle calculateSize config p r now s =
     (if p < length (promises s) \<and> fetch_status (promises s ! p) = None then
        (let f = promises s ! p;
             k = fetch_key f;
             s1 = (case r of
                     Fulfilled d \<Rightarrow>
                       set_cache calculateSize config now k d (fetch_ttl f) (Some (calculateSize d)) s
                   | Rejected e \<Rightarrow> s);
             s2 = s1\<lparr>pendingFetches := AList.delete k (pendingFetches s1)\<rparr>
         in s2\<lparr>promises := (promises s2)[p := f\<lparr>fetch_status := Some r\<rparr>]\<rparr>)
      else s)"

text \<open>What the promise at \<open>p\<close> holds; \<open>None\<close> while it is pending or when there is none.\<close>

definition promise_status :: "'a cstate \<Rightarrow> nat \<Rightarrow> 'a settled option" where
  "promise_status s p = (if p < length (promises s) then fetch_status (promises s ! p) else None)"

definition caller_resume :: "'a call \<Rightarrow> int \<Rightarrow> 'a cstate \<Rightarrow> 'a settled option \<times> 'a cstate" where
  "caller_resume c now s =
     (case c of
        Hit v \<Rightarrow> (Some (Fulfilled (Some v)), s)
      | Joined p \<Rightarrow> (promise_status s p, s)
      | Started p startTime \<Rightarrow>
          (case promise_status s p of
             Some (Fulfilled d) \<Rightarrow> (Some (Fulfilled d), updateStats (now - startTime) s)
           | r \<Rightarrow> (r, s)))"

subsection \<open>Runs of the cache\<close>

text \<open>
  One event is one uninterrupted step of the event loop on the cache: a call of a
  synchronous operation, a tick of the cleanup interval, or one of the three steps of
  \<open>getOrSet\<close>.
\<close>

datatype 'a cevent =
    SetEv key "'a option" "int option" "int option" int
  | GetEv key int int
  | HasEv key int
  | DeleteEv key
  | ClearEv
  | SweepEv int
  | GetOrSetEv key supplier "int option" int int int int
  | FetchSettledEv nat "'a settled" int
  | ResumeEv "'a call" int

fun cache_step :: "('a option \<Rightarrow> int) \<Rightarrow> CacheOptions \<Rightarrow> 'a cevent \<Rightarrow> 'a cstate \<Rightarrow> 'a cstate" where
  "cache_step cs config (SetEv k d customTtl sz now) s = set_cache cs config now k d customTtl sz s"
| "cache_step cs config (GetEv k now now') s = snd (get now now' k s)"
| "cache_step cs config (HasEv k now) s = snd (has now k s)"
| "cache_step cs config (DeleteEv k) s = snd (deleteFn k s)"
| "cache_step cs config ClearEv s = clear s"
| "cache_step cs config (SweepEv now) s = cleanupStaleEntries now s"
| "cache_step cs config (GetOrSetEv k fetchFn customTtl startTime now now' now'') s =
     snd (getOrSet_call k fetchFn customTtl startTime now now' now'' s)"
| "cache_step cs config (FetchSettledEv p r now) s = fetch_settle cs config p r now s"
| "cache_step cs config (ResumeEv c now) s = snd (caller_resume c now s)"

text \<open>
  The key that an event uses, in the sense of the eviction policy: the key of a \<open>set\<close>
  (a direct one, or the one a fulfilled fetch makes) and the key of a \<open>get\<close> that finds
  a live entry (a direct one, or the one \<open>getOrSet\<close> makes when no fetch is
  registered). \<open>has\<close>, \<open>delete\<close>, \<open>clear\<close> and the sweep use no key.
\<close>

definition live_at :: "int \<Rightarrow> key \<Rightarrow> 'a cstate \<Rightarrow> bool" where
  "live_at now k s =
     (case map_of (cache s) k of None \<Rightarrow> False | Some entry \<Rightarrow> \<not> now > expiresAt entry)"

fun used_key :: "'a cevent \<Rightarrow> 'a cstate \<Rightarrow> key option" where
  "used_key (SetEv k d customTtl sz now) s = Some k"
| "used_key (GetEv k now now') s = (if live_at now k s then Some k else None)"
| "used_key (GetOrSetEv k fetchFn customTtl startTime now now' now'') s =
     (if map_of (pendingFetches s) k = None \<and> live_at now k s then Some k else None)"
| "used_key (FetchSettledEv p r now) s =
     (case r of
        Fulfilled d \<Rightarrow>
          if p < length (promises s) \<and> fetch_status (promises s ! p) = None
          then Some (fetch_key (promises s ! p)) else None
      | Rejected e \<Rightarrow> None)"
| "used_key ev s = None"

text \<open>
  A run from a state, recording beside it when each key was last used: \<open>last_use\<close>
  maps a key to the number of the latest event that used it (0 when none did), and the
  third component counts the events.
\<close>

fun cache_run ::
  "('a option \<Rightarrow> int) \<Rightarrow> CacheOptions \<Rightarrow> 'a cevent list \<Rightarrow> 'a cstate \<times> (key \<Rightarrow> nat) \<times> nat
     \<Rightarrow> 'a cstate \<times> (key \<Rightarrow> nat) \<times> nat" where
  "cache_run cs config [] x = x"
| "cache_run cs config (ev # evs) (s, last_use, n) =
     cache_run cs config evs
       (cache_step cs config ev s,
        (case used_key ev s of None \<Rightarrow> last_use | Some k \<Rightarrow> last_use(k := Suc n)),
        Suc n)"

text \<open>A run from a state, without the record of uses.\<close>

definition cache_steps ::
  "('a option \<Rightarrow> int) \<Rightarrow> CacheOptions \<Rightarrow> 'a cevent list \<Rightarrow> 'a cstate \<Rightarrow> 'a cstate" where
  "cache_steps cs config evs s = fold (cache_step cs config) evs s"

text \<open>
  An event stores an entry for a key when it is a \<open>set\<close> of that key or the fulfilment
  of a pending fetch for it, whose closure calls \<open>set\<close>. \<open>stored_again\<close>: some event
  of the run from \<open>s\<close> does.
\<close>

fun stores_key :: "key \<Rightarrow> 'a cevent \<Rightarrow> 'a cstate \<Rightarrow> bool" where
  "stores_key k (SetEv k' d customTtl sz now) s = (k' = k)"
| "stores_key k (FetchSettledEv p r now) s =
     (case r of
        Fulfilled d \<Rightarrow>
          p < length (promises s) \<and> fetch_status (promises s ! p) = None \<and>
          fetch_key (promises s ! p) = k
      | Rejected e \<Rightarrow> False)"
| "stores_key k ev s = False"

fun stored_again ::
  "('a option \<Rightarrow> int) \<Rightarrow> CacheOptions \<Rightarrow> key \<Rightarrow> 'a cevent list \<Rightarrow> 'a cstate \<Rightarrow> bool" where
  "stored_again cs config k [] s = False"
| "stored_again cs config k (ev # evs) s =
     (stores_key k ev s \<or> stored_again cs config k evs (cache_step cs config ev s))"

text \<open>
  \<open>entry_kept k s s'\<close>: an entry that \<open>s'\<close> holds for the key is one that \<open>s\<close> held, with
  the same expiry time.
\<close>

definition entry_kept :: "key \<Rightarrow> 'a cstate \<Rightarrow> 'a cstate \<Rightarrow> bool" where
  "entry_kept k s s' \<longleftrightarrow>
     (case map_of (cache s') k of
        None \<Rightarrow> True
      | Some e' \<Rightarrow>
          (case map_of (cache s) k of None \<Rightarrow> False | Some e \<Rightarrow> expiresAt e' = expiresAt e))"

definition liveSizeBytes :: "'a cstate \<Rightarrow> int" where
  "liveSizeBytes s = sum_list (map (\<lambda>(k, entry). size_entry entry) (cache s))"

subsection \<open>Invariants of the cache state\<close>

text \<open>
  The key lists are duplicate-free, \<open>accessOrder\<close> holds exactly the keys of the map, and
  the map holds at most \<open>maxSize\<close> entries.
\<close>

definition cache_inv :: "CacheOptions \<Rightarrow> 'a cstate \<Rightarrow> bool" where
  "cache_inv config s \<longleftrightarrow>
     distinct (getKeys s) \<and> distinct (accessOrder s) \<and> set (accessOrder s) = set (getKeys s) \<and>
     int (length (cache s)) \<le> maxSize config"

text \<open>
  \<open>accessOrder\<close> is ordered by last use, latest first, and no key was used after event
  number \<open>n\<close>.
\<close>

definition recency_inv :: "(key \<Rightarrow> nat) \<Rightarrow> nat \<Rightarrow> 'a cstate \<Rightarrow> bool" where
  "recency_inv last_use n s \<longleftrightarrow>
     sorted_wrt (\<lambda>a b. last_use b < last_use a) (accessOrder s) \<and>
     (\<forall>k \<in> set (accessOrder s). last_use k \<le> n)"

text \<open>The state in which \<open>set\<close> inserts: after the eviction, when there is one.\<close>

definition make_room :: "CacheOptions \<Rightarrow> key \<Rightarrow> 'a cstate \<Rightarrow> 'a cstate" where
  "make_room config k s =
     (if int (length (cache s)) \<ge> maxSize config \<and> map_of (cache s) k = None then evictLRU s else s)"

subsection \<open>Concurrent callers of \<open>getOrSet\<close>\<close>







section \<open>TaskScheduler: \<open>createAsyncQueue\<close>\<close>

text \<open>
  A queue item carries its id, its priority and its task. \<open>enqueue\<close> always writes the
  \<open>priority\<close> field (the parameter defaults to 0), so \<open>queue[i].priority ?? 0\<close> is the
  field. Of the task the scheduler sees only what calling it does before it returns:
  it may call \<open>enqueue\<close> on the same queue (\<open>task_enqueues\<close>, in call order), and it then
  returns its promise or throws (\<open>task_throws\<close>). \<open>resolve\<close> and \<open>reject\<close> settle the
  promise that \<open>enqueue\<close> returned and touch no scheduler state.
  \<open>started\<close> is the log of the calls \<open>item.task()\<close>, oldest first.
\<close>

datatype QueueItem =
  QueueItem (item_id: string) (priority: int) (task_throws: bool) (task_enqueues: "QueueItem list")

record qstate =
  queue :: "QueueItem list"
  isProcessing :: bool
  activeWorkers :: int
  completedTasks :: int
  failedTasks :: int
  started :: "QueueItem list"

definition queue_initial :: qstate where
  "queue_initial =
     \<lparr>queue = [], isProcessing = False, activeWorkers = 0, completedTasks = 0,
      failedTasks = 0, started = []\<rparr>"

text \<open>
  The insertion loop of \<open>enqueue\<close>: \<open>splice(i, 0, item)\<close> at the first \<open>i\<close> whose item
  has a smaller priority, \<open>push\<close> when there is none.
\<close>

fun insert_item :: "QueueItem \<Rightarrow> QueueItem list \<Rightarrow> QueueItem list" where
  "insert_item item [] = [item]"
| "insert_item item (q # qs) =
     (if priority q < priority item then item # q # qs else q # insert_item item qs)"

definition enqueue_insert :: "QueueItem \<Rightarrow> qstate \<Rightarrow> qstate" where
  "enqueue_insert item s = s\<lparr>queue := insert_item item (queue s)\<rparr>"

text \<open>
  The \<open>while\<close> loop of \<open>processQueue\<close>. It runs with \<open>isProcessing\<close> set, so an
  \<open>enqueue\<close> that a task makes while it is being started inserts its item and returns
  at the guard of the nested \<open>processQueue\<close> (lemma \<open>enqueue_while_processing\<close> below):
  that call is \<open>enqueue_insert\<close> here. When \<open>item.task()\<close> throws, the exception leaves
  the loop and \<open>processQueue\<close>: line 459 is not reached and no completion handler is
  attached. \<open>queue.shift()\<close> on a non-empty queue of items is never \<open>undefined\<close>.
\<close>

function dispatch_loop :: "int \<Rightarrow> qstate \<Rightarrow> qstate" where
  "dispatch_loop maxConcurrent s =
     (if queue s \<noteq> [] \<and> activeWorkers s < maxConcurrent then
        (let item = hd (queue s);
             s1 = s\<lparr>queue := tl (queue s)\<rparr>;
             s2 = s1\<lparr>activeWorkers := activeWorkers s1 + 1, started := started s1 @ [item]\<rparr>;
             s3 = fold enqueue_insert (task_enqueues item) s2
         in if task_throws item then s3 else dispatch_loop maxConcurrent s3)
      else s\<lparr>isProcessing := False\<rparr>)"
  by pat_completeness auto

lemma activeWorkers_fold_enqueue_insert:
  "activeWorkers (fold enqueue_insert items s) = activeWorkers s"
  by (induction items arbitrary: s) (simp_all add: enqueue_insert_def)

termination dispatch_loop
  by (relation "measure (\<lambda>(m, s). nat (m - activeWorkers s))")
     (simp_all add: activeWorkers_fold_enqueue_insert)

declare dispatch_loop.simps [simp del]

definition processQueue :: "int \<Rightarrow> qstate \<Rightarrow> qstate" where
  "processQueue maxConcurrent s =
     (if isProcessing s \<or> activeWorkers s \<ge> maxConcurrent then s
      else dispatch_loop maxConcurrent (s\<lparr>isProcessing := True\<rparr>))"

definition enqueue :: "int \<Rightarrow> QueueItem \<Rightarrow> qstate \<Rightarrow> qstate" where
  "enqueue maxConcurrent item s = processQueue maxConcurrent (enqueue_insert item s)"

text \<open>
  The handlers attached to the task's promise run when it has settled, each in a step
  of its own: \<open>then\<close> or \<open>catch\<close> counts the outcome and settles the promise that
  \<open>enqueue\<close> returned, whose continuation (a caller of the queue) may run before the
  next handler; \<open>finally\<close> frees the slot, resets the flag and calls \<open>processQueue\<close>.
\<close>

definition task_outcome :: "bool \<Rightarrow> qstate \<Rightarrow> qstate" where
  "task_outcome ok s =
     (if ok then s\<lparr>completedTasks := completedTasks s + 1\<rparr>
      else s\<lparr>failedTasks := failedTasks s + 1\<rparr>)"

definition task_finally :: "int \<Rightarrow> qstate \<Rightarrow> qstate" where
  "task_finally maxConcurrent s =
     (let s1 = s\<lparr>activeWorkers := activeWorkers s - 1\<rparr>;
          s2 = s1\<lparr>isProcessing := False\<rparr>
      in processQueue maxConcurrent s2)"

definition queue_clear :: "qstate \<Rightarrow> qstate" where
  "queue_clear s = s\<lparr>queue := []\<rparr>"

definition getQueueItems :: "qstate \<Rightarrow> QueueItem list" where
  "getQueueItems s = queue s"

text \<open>What the callers of a queue do to it, one step of the event loop at a time.\<close>

datatype qevent = Enqueue QueueItem | Outcome bool | Finally | ClearQueue

fun queue_step :: "int \<Rightarrow> qevent \<Rightarrow> qstate \<Rightarrow> qstate" where
  "queue_step m (Enqueue item) s = enqueue m item s"
| "queue_step m (Outcome ok) s = task_outcome ok s"
| "queue_step m Finally s = task_finally m s"
| "queue_step m ClearQueue s = queue_clear s"

definition queue_run :: "int \<Rightarrow> qevent list \<Rightarrow> qstate \<Rightarrow> qstate" where
  "queue_run m evs s = fold (queue_step m) evs s"

subsection \<open>What a run of the queue is measured against\<close>

text \<open>
  Every call of \<open>enqueue\<close> is made by a caller of the queue or by a task as it is
  started. \<open>accounted\<close>: what has been started or is pending was enqueued, with
  multiplicity.
\<close>

definition enqueued_by_callers :: "qevent list \<Rightarrow> QueueItem multiset" where
  "enqueued_by_callers evs = mset (concat (map (\<lambda>ev. case ev of Enqueue item \<Rightarrow> [item] | _ \<Rightarrow> []) evs))"

definition enqueued_by_tasks :: "QueueItem list \<Rightarrow> QueueItem multiset" where
  "enqueued_by_tasks items = mset (concat (map task_enqueues items))"

definition accounted :: "QueueItem multiset \<Rightarrow> qstate \<Rightarrow> bool" where
  "accounted E s \<longleftrightarrow> mset (started s) + mset (queue s) \<subseteq># E + enqueued_by_tasks (started s)"

text \<open>The pending sequence is sorted by descending priority.\<close>

definition pending_sorted :: "QueueItem list \<Rightarrow> bool" where
  "pending_sorted q = sorted_wrt (\<lambda>a b. priority b \<le> priority a) q"

text \<open>
  \<open>order_inv base x y s\<close>, for the tasks started after the log was \<open>base\<close>: task \<open>x\<close> is
  pending with no \<open>y\<close> before it and no \<open>y\<close> has been started, or \<open>x\<close> has been
  started before any \<open>y\<close>.
\<close>

definition order_inv :: "QueueItem list \<Rightarrow> QueueItem \<Rightarrow> QueueItem \<Rightarrow> qstate \<Rightarrow> bool" where
  "order_inv base x y s \<longleftrightarrow>
     pending_sorted (queue s) \<and>
     (\<exists>later. started s = base @ later \<and>
        ((\<exists>a b. queue s = a @ x # b \<and> y \<notin> set a) \<and> y \<notin> set later \<or>
         x \<in> set (takeWhile (\<lambda>z. z \<noteq> y) later)))"

text \<open>One iteration of the loop of \<open>processQueue\<close>.\<close>

definition dispatch_one :: "qstate \<Rightarrow> qstate" where
  "dispatch_one s =
     fold enqueue_insert (task_enqueues (hd (queue s)))
       (s\<lparr>queue := tl (queue s), activeWorkers := activeWorkers s + 1,
           started := started s @ [hd (queue s)]\<rparr>)"

section \<open>RateLimiter: \<open>createBurstRateLimiter\<close>\<close>

text \<open>
  Timestamps and windows are integers (milliseconds). \<open>Math.min\<close> of no arguments is
  \<open>Infinity\<close>, and \<open>Math.ceil\<close>, \<open>*\<close> and \<open>+\<close> keep it, so \<open>retryAfter\<close> and \<open>reset\<close>
  are integers or \<open>Infinity\<close>. \<open>requests\<close> is a \<open>Map\<close>: an association list as above.
\<close>

datatype xnum = Fin int | Infinity

record RateLimitConfig =
  maxRequests :: int
  timeWindow :: int
  burstCapacity :: int
  burstWindow :: int

record RateLimitResult =
  allowed :: bool
  retryAfter :: xnum
  remaining :: int
  limit :: int
  reset :: xnum

record RateLimitData =
  timestamps :: "int list"
  burstTimestamps :: "int list"

type_synonym requests = "(string \<times> RateLimitData) list"

text \<open>The limiter that the module builds; \<open>createBurstRateLimiter\<close> is not exported.\<close>

definition rateLimiter_config :: RateLimitConfig where
  "rateLimiter_config =
     \<lparr>maxRequests = 10, timeWindow = 60000, burstCapacity = 5, burstWindow = 10000\<rparr>"

fun js_min :: "int list \<Rightarrow> xnum" where
  "js_min [] = Infinity"
| "js_min (x # xs) = (case js_min xs of Infinity \<Rightarrow> Fin x | Fin y \<Rightarrow> Fin (min x y))"

text \<open>\<open>Math.ceil((oldest + window - now) / 1000)\<close> and \<open>now + retryAfter * 1000\<close>.\<close>

definition retry_seconds :: "xnum \<Rightarrow> int \<Rightarrow> int \<Rightarrow> xnum" where
  "retry_seconds oldest window now =
     (case oldest of Infinity \<Rightarrow> Infinity | Fin t \<Rightarrow> Fin (- ((- (t + window - now)) div 1000)))"

definition reset_at :: "int \<Rightarrow> xnum \<Rightarrow> xnum" where
  "reset_at now r = (case r of Infinity \<Rightarrow> Infinity | Fin n \<Rightarrow> Fin (now + n * 1000))"

text \<open>
  \<open>userData\<close> is the object held by the map when the client is known, and the two
  \<open>filter\<close> assignments then change that object: the pruned lists are stored whatever
  the decision. For an unknown client the fresh object reaches the map only through
  \<open>requests.set\<close> on the allowed path.
\<close>

definition isAllowed :: "RateLimitConfig \<Rightarrow> int \<Rightarrow> string \<Rightarrow> requests \<Rightarrow> RateLimitResult \<times> requests" where
  "isAllowed config now ip requests =
     (let known = map_of requests ip;
          userData = (case known of Some d \<Rightarrow> d | None \<Rightarrow> \<lparr>timestamps = [], burstTimestamps = []\<rparr>);
          userData1 = userData\<lparr>timestamps :=
                        filter (\<lambda>ts. now - ts < timeWindow config) (timestamps userData)\<rparr>;
          userData2 = userData1\<lparr>burstTimestamps :=
                        filter (\<lambda>ts. now - ts < burstWindow config) (burstTimestamps userData1)\<rparr>;
          requests1 = (if known = None then requests else AList.update ip userData2 requests)
      in if int (length (burstTimestamps userData2)) \<ge> burstCapacity config then
           (let oldest = js_min (burstTimestamps userData2);
                retryAfter' = retry_seconds oldest (burstWindow config) now
            in (\<lparr>allowed = False, retryAfter = retryAfter', remaining = 0,
                 limit = maxRequests config, reset = reset_at now retryAfter'\<rparr>, requests1))
         else if int (length (timestamps userData2)) \<ge> maxRequests config then
           (let oldest = js_min (timestamps userData2);
                retryAfter' = retry_seconds oldest (timeWindow config) now
            in (\<lparr>allowed = False, retryAfter = retryAfter', remaining = 0,
                 limit = maxRequests config, reset = reset_at now retryAfter'\<rparr>, requests1))
         else
           (let userData3 = userData2\<lparr>timestamps := timestamps userData2 @ [now]\<rparr>;
                userData4 = userData3\<lparr>burstTimestamps := burstTimestamps userData3 @ [now]\<rparr>
            in (\<lparr>allowed = True, retryAfter = Fin 0,
                 remaining = max 0 (maxRequests config - int (length (timestamps userData4))),
                 limit = maxRequests config, reset = Fin (now + timeWindow config)\<rparr>,
                AList.update ip userData4 requests)))"

text \<open>
  The periodic \<open>cleanup\<close> visits the entries present when it starts; \<open>cleanup_entry\<close>
  is the body of its loop, which prunes the record in place and deletes it when its two
  lists are empty.
\<close>

definition cleanup_entry :: "RateLimitConfig \<Rightarrow> int \<Rightarrow> string \<times> RateLimitData \<Rightarrow> requests \<Rightarrow> requests" where
  "cleanup_entry config now =
     (\<lambda>(ip, d) r.
             let d1 = d\<lparr>timestamps := filter (\<lambda>ts. now - ts < timeWindow config) (timestamps d)\<rparr>;
                 d2 = d1\<lparr>burstTimestamps :=
                         filter (\<lambda>ts. now - ts < burstWindow config) (burstTimestamps d1)\<rparr>;
                 r1 = AList.update ip d2 r
             in if timestamps d2 = [] \<and> burstTimestamps d2 = [] then AList.delete ip r1 else r1)"

definition cleanup :: "RateLimitConfig \<Rightarrow> int \<Rightarrow> requests \<Rightarrow> requests" where
  "cleanup config now requests = fold (cleanup_entry config now) requests requests"

datatype rl_event = Check string int | Cleanup int

fun rl_step :: "RateLimitConfig \<Rightarrow> rl_event \<Rightarrow> requests \<Rightarrow> requests" where
  "rl_step config (Check ip now) r = snd (isAllowed config now ip r)"
| "rl_step config (Cleanup now) r = cleanup config now r"

definition rl_run :: "RateLimitConfig \<Rightarrow> rl_event list \<Rightarrow> requests" where
  "rl_run config evs = fold (rl_step config) evs []"

subsection \<open>What a decision is measured against\<close>

text \<open>
  The record of a client as \<open>isAllowed\<close> reads it (\<open>requests.get(ip)\<close>, or the empty
  record), and its two sequences pruned to their windows relative to \<open>now\<close>.
\<close>

definition record_of :: "requests \<Rightarrow> string \<Rightarrow> RateLimitData" where
  "record_of r ip = (case map_of r ip of Some d \<Rightarrow> d | None \<Rightarrow> \<lparr>timestamps = [], burstTimestamps = []\<rparr>)"

definition pruned :: "RateLimitConfig \<Rightarrow> int \<Rightarrow> RateLimitData \<Rightarrow> RateLimitData" where
  "pruned config now d =
     \<lparr>timestamps = filter (\<lambda>ts. now - ts < timeWindow config) (timestamps d),
      burstTimestamps = filter (\<lambda>ts. now - ts < burstWindow config) (burstTimestamps d)\<rparr>"

text \<open>No stored sequence is longer than its limit.\<close>

definition within_limits :: "RateLimitConfig \<Rightarrow> requests \<Rightarrow> bool" where
  "within_limits config r \<longleftrightarrow>
     (\<forall>(ip, d) \<in> set r. int (length (timestamps d)) \<le> maxRequests config \<and>
                          int (length (burstTimestamps d)) \<le> burstCapacity config)"

section \<open>Properties of the cache\<close>

lemmas cache_defs = set_cache_def updateAccessOrder_def removeFromAccessOrder_def evictLRU_def
  deleteEntry_def get_def has_def

lemmas getOrSet_defs = getOrSet_call_def fetch_settle_def caller_resume_def promise_status_def
  updateStats_def

subsection \<open>The effect of \<open>set\<close>, and expired entries\<close>

lemma set_cache_make_room:
  "set_cache cs config now k d customTtl sz s =
     (let entry = \<lparr>data = d,
            expiresAt = now + (case customTtl of None \<Rightarrow> ttl config | Some t \<Rightarrow> if t = 0 then ttl config else t),
            lastAccessed = now,
            size_entry = (case sz of None \<Rightarrow> cs d | Some n \<Rightarrow> if n = 0 then cs d else n)\<rparr>;
          s1 = make_room config k s
      in s1\<lparr>cache := AList.update k entry (cache s1),
            accessOrder := k # remove1 k (accessOrder s1),
            stats := (stats s1)\<lparr>size_stats := int (length (AList.update k entry (cache s1))),
                       totalSizeBytes := totalSizeBytes (stats s1)
                         + (if map_of (cache s1) k \<noteq> None then 0 else size_entry entry)\<rparr>\<rparr>)"
  unfolding set_cache_def Let_def make_room_def [symmetric]
  by (simp add: updateAccessOrder_def removeFromAccessOrder_def update_conv')

lemma map_of_set_cache:
  "map_of (cache (set_cache cs cfg now k d customTtl sz s)) k =
     Some \<lparr>data = d,
           expiresAt = now + (case customTtl of None \<Rightarrow> ttl cfg | Some t \<Rightarrow> if t = 0 then ttl cfg else t),
           lastAccessed = now,
           size_entry = (case sz of None \<Rightarrow> cs d | Some n \<Rightarrow> if n = 0 then cs d else n)\<rparr>"
  by (simp add: set_cache_make_room Let_def update_conv')

lemma get_expired:
  assumes "map_of (cache s) k = Some e" and "now > expiresAt e"
  shows "fst (get now now' k s) = None"
    and "misses (stats (snd (get now now' k s))) = misses (stats s) + 1"
    and "hits (stats (snd (get now now' k s))) = hits (stats s)"
    and "map_of (cache (snd (get now now' k s))) k = None"
  using assms by (simp_all add: get_def deleteEntry_def removeFromAccessOrder_def Let_def delete_conv')

lemma has_expired:
  assumes "map_of (cache s) k = Some e" and "now > expiresAt e"
  shows "fst (has now k s) = False"
    and "map_of (cache (snd (has now k s))) k = None"
    and "misses (stats (snd (has now k s))) = misses (stats s)"
    and "hits (stats (snd (has now k s))) = hits (stats s)"
    and "staleEntriesCleaned (stats (snd (has now k s))) = staleEntriesCleaned (stats s)"
  using assms by (simp_all add: has_def deleteEntry_def removeFromAccessOrder_def Let_def delete_conv')

lemma overwrite_leaves_totalSizeBytes:
  assumes "map_of (cache s) k \<noteq> None"
  shows "totalSizeBytes (stats (set_cache cs config now k d customTtl sz s)) = totalSizeBytes (stats s)"
proof -
  have "make_room config k s = s" using assms by (auto simp: make_room_def)
  then show ?thesis using assms by (simp add: set_cache_make_room Let_def)
qed

text \<open>
  Claim C1 (the byte counter equals the sum of the live entries' sizes; an overwriting
  \<open>set\<close> subtracts the prior size and adds the new one). \<open>set\<close> reads \<open>oldEntry\<close> with
  \<open>cache.get(key)\<close> after \<open>cache.set(key, entry)\<close> has replaced it, so it subtracts the
  new size and adds it again. Storing key \<open>a\<close> with size 10 and then with size 25
  leaves \<open>totalSizeBytes\<close> at 10 while the one live entry has size 25.
  In general an overwriting \<open>set\<close> leaves \<open>totalSizeBytes\<close> as it was (lemma
  \<open>overwrite_leaves_totalSizeBytes\<close>).
\<close>

theorem overwrite_keeps_old_totalSizeBytes:
  "(let s1 = set_cache (\<lambda>d. 1024) defaultOptions 0 ''a'' (Some (1::nat)) None (Some 10) initial;
        s2 = set_cache (\<lambda>d. 1024) defaultOptions 1 ''a'' (Some 1) None (Some 25) s1
    in totalSizeBytes (getStats s1) = 10 \<and> liveSizeBytes s1 = 10 \<and>
       totalSizeBytes (getStats s2) = 10 \<and> liveSizeBytes s2 = 25)"
  by (simp add: cache_defs defaultOptions_def initial_def getStats_def liveSizeBytes_def Let_def)

lemma deleteEntry_average:
  "averageResponseTime (stats (snd (deleteEntry k s))) = averageResponseTime (stats s)"
  by (simp add: deleteEntry_def removeFromAccessOrder_def Let_def split: option.split)

lemma evictLRU_average:
  "averageResponseTime (stats (evictLRU s)) = averageResponseTime (stats s)"
  by (simp add: evictLRU_def Let_def split: option.split)

lemma set_cache_average:
  "averageResponseTime (stats (set_cache cs config now k d customTtl sz s)) = averageResponseTime (stats s)"
  by (simp add: set_cache_make_room Let_def make_room_def evictLRU_average)

lemma get_average:
  "averageResponseTime (stats (snd (get now now' k s))) = averageResponseTime (stats s)"
  by (simp add: get_def deleteEntry_average updateAccessOrder_def removeFromAccessOrder_def Let_def
      split: option.split)

lemma has_average:
  "averageResponseTime (stats (snd (has now k s))) = averageResponseTime (stats s)"
  by (simp add: has_def deleteEntry_average split: option.split)

lemma sweep_fold_average:
  "averageResponseTime (stats (fst (fold (\<lambda>(k, entry) (t, c).
            if now > expiresAt entry then (snd (deleteEntry k t), c + 1) else (t, c)) xs (s, c0 :: int)))) =
     averageResponseTime (stats s)"
  by (induction xs arbitrary: s c0) (auto simp: deleteEntry_average)

lemma cleanupStaleEntries_average:
  "averageResponseTime (stats (cleanupStaleEntries now s)) = averageResponseTime (stats s)"
  using sweep_fold_average [of now "cache s" s 0]
  by (auto simp: cleanupStaleEntries_def Let_def split: prod.split)

lemma getOrSet_call_average:
  "averageResponseTime (stats (snd (getOrSet_call k fetchFn customTtl startTime now now' now'' s))) =
     averageResponseTime (stats s)"
proof -
  obtain v s1 where g: "get now now' k s = (v, s1)" by (cases "get now now' k s")
  have "averageResponseTime (stats s1) = averageResponseTime (stats s)"
    using get_average [of now now' k s] g by simp
  then show ?thesis
    using g by (simp add: getOrSet_call_def updateStats_def Let_def split: option.split supplier.split)
qed

lemma fetch_settle_average:
  "averageResponseTime (stats (fetch_settle cs config p r now s)) = averageResponseTime (stats s)"
  by (simp add: fetch_settle_def Let_def set_cache_average split: settled.split)

lemma caller_resume_average:
  "averageResponseTime (stats (snd (caller_resume c now s))) = averageResponseTime (stats s)"
  by (simp add: caller_resume_def updateStats_def split: call.split option.split settled.split)

lemma cache_step_average:
  "averageResponseTime (stats s) = 0 \<Longrightarrow> averageResponseTime (stats (cache_step cs config ev s)) = 0"
  by (cases ev)
    (simp_all add: set_cache_average get_average has_average deleteFn_def deleteEntry_average clear_def
      cleanupStaleEntries_average getOrSet_call_average fetch_settle_average caller_resume_average)

lemma averageResponseTime_always_zero:
  assumes "cache_run cs config evs (initial, \<lambda>k. 0, 0) = (s, last_use, n)"
  shows "averageResponseTime (getStats s) = 0"
proof -
  have "averageResponseTime (stats t) = 0 \<Longrightarrow> cache_run cs config evs (t, u, m) = (s, last_use, n) \<Longrightarrow>
      averageResponseTime (stats s) = 0" for t u m
  proof (induction evs arbitrary: t u m)
    case Nil
    then show ?case by simp
  next
    case (Cons ev evs)
    show ?case
      using Cons.IH [OF cache_step_average [OF Cons.prems(1)]] Cons.prems(2) by simp
  qed
  from this [OF _ assms] have "averageResponseTime (stats s) = 0"
    by (simp add: initial_def)
  then show ?thesis by (simp add: getStats_def Let_def)
qed

text \<open>
  Claim C7 (\<open>averageResponseTime\<close> is the running total of the recorded latencies
  divided by the number of hits and misses). \<open>updateStats\<close> adds each latency to the
  variable \<open>totalResponseTime\<close>, but \<open>getStats\<close> divides the field
  \<open>stats.averageResponseTime\<close>, which nothing but \<open>clear\<close> assigns. One \<open>getOrSet\<close> that
  misses at time 1000 and whose fetch is fulfilled at time 1200 records a latency of 200
  and one miss; \<open>getStats\<close> reports an average of 0, as it does after every run
  from the initial cache (lemma \<open>averageResponseTime_always_zero\<close>).
\<close>

theorem averageResponseTime_ignores_latencies:
  "(let (c, s1) = getOrSet_call ''k'' ReturnsPromise None 1000 1000 1000 1000 (initial :: nat cstate);
        s2 = fetch_settle (\<lambda>d. 1024) defaultOptions 0 (Fulfilled (Some 7)) 1200 s1;
        (r, s3) = caller_resume c 1200 s2
    in c = Started 0 1000 \<and> r = Some (Fulfilled (Some 7)) \<and>
       totalResponseTime s3 = 200 \<and> hits (getStats s3) + misses (getStats s3) = 1 \<and>
       averageResponseTime (getStats s3) = 0)"
  by (simp add: getOrSet_defs cache_defs defaultOptions_def initial_def getStats_def Let_def)

text \<open>What a run keeps of an entry\<close>

lemma entry_kept_refl: "entry_kept k s s"
  by (simp add: entry_kept_def split: option.split)

lemma entry_kept_trans: "entry_kept k s s' \<Longrightarrow> entry_kept k s' s'' \<Longrightarrow> entry_kept k s s''"
  by (auto simp: entry_kept_def split: option.splits)

lemma entry_kept_cache: "cache s' = cache s \<Longrightarrow> entry_kept k s s'"
  by (simp add: entry_kept_def split: option.split)

lemma entry_kept_delete: "cache s' = AList.delete k' (cache s) \<Longrightarrow> entry_kept k s s'"
  by (simp add: entry_kept_def delete_conv' split: option.split)

lemma deleteEntry_kept: "entry_kept k s (snd (deleteEntry k' s))"
  by (cases "map_of (cache s) k'")
    (simp_all add: deleteEntry_def removeFromAccessOrder_def Let_def entry_kept_refl entry_kept_delete)

lemma evictLRU_kept: "entry_kept k s (evictLRU s)"
  by (simp add: evictLRU_def Let_def entry_kept_refl entry_kept_cache entry_kept_delete split: option.split)

lemma set_cache_kept:
  assumes "k' \<noteq> k"
  shows "entry_kept k s (set_cache cs config now k' d customTtl sz s)"
proof -
  have "map_of (cache (set_cache cs config now k' d customTtl sz s)) k = map_of (cache (make_room config k' s)) k"
    using assms by (simp add: set_cache_make_room Let_def update_conv')
  then have "entry_kept k (make_room config k' s) (set_cache cs config now k' d customTtl sz s)"
    by (simp add: entry_kept_def split: option.split)
  moreover have "entry_kept k s (make_room config k' s)"
    by (simp add: make_room_def entry_kept_refl evictLRU_kept)
  ultimately show ?thesis by (rule entry_kept_trans [rotated])
qed

lemma get_kept: "entry_kept k s (snd (get now now' k' s))"
proof (cases "map_of (cache s) k'")
  case None
  then show ?thesis by (simp add: get_def entry_kept_cache)
next
  case (Some e)
  show ?thesis
  proof (cases "now > expiresAt e")
    case True
    have "entry_kept k (snd (deleteEntry k' s))
        ((snd (deleteEntry k' s))\<lparr>stats := (stats (snd (deleteEntry k' s)))\<lparr>misses :=
           misses (stats (snd (deleteEntry k' s))) + 1\<rparr>\<rparr>)"
      by (rule entry_kept_cache) simp
    then show ?thesis
      using Some True deleteEntry_kept [of k s k'] by (simp add: get_def Let_def entry_kept_trans)
  next
    case False
    then show ?thesis
      using Some
      by (auto simp: get_def Let_def updateAccessOrder_def removeFromAccessOrder_def entry_kept_def update_conv'
          split: option.split)
  qed
qed

lemma has_kept: "entry_kept k s (snd (has now k' s))"
  by (simp add: has_def entry_kept_refl deleteEntry_kept split: option.split)

lemma sweep_fold_kept:
  "entry_kept k s (fst (fold (\<lambda>(k, entry) (t, c).
            if now > expiresAt entry then (snd (deleteEntry k t), c + 1) else (t, c)) xs (s, c0 :: int)))"
proof (induction xs arbitrary: s c0)
  case Nil
  then show ?case by (simp add: entry_kept_refl)
next
  case (Cons x xs)
  obtain k' e where x: "x = (k', e)" by (cases x)
  show ?case
  proof (cases "now > expiresAt e")
    case True
    show ?thesis
      using Cons.IH [of "snd (deleteEntry k' s)" "c0 + 1"] deleteEntry_kept [of k s k'] True
      by (simp add: x entry_kept_trans)
  next
    case False
    then show ?thesis using Cons.IH [of s c0] by (simp add: x)
  qed
qed

lemma cleanupStaleEntries_kept: "entry_kept k s (cleanupStaleEntries now s)"
proof -
  obtain s1 n where f: "fold (\<lambda>(k, entry) (t, c).
            if now > expiresAt entry then (snd (deleteEntry k t), c + 1) else (t, c)) (cache s) (s, 0 :: int) = (s1, n)"
    by (cases "fold (\<lambda>(k, entry) (t, c).
            if now > expiresAt entry then (snd (deleteEntry k t), c + 1) else (t, c)) (cache s) (s, 0 :: int)")
  have "entry_kept k s s1"
    using sweep_fold_kept [of k s now "cache s" 0] f by simp
  then show ?thesis
    by (simp add: cleanupStaleEntries_def f entry_kept_def)
qed

lemma getOrSet_call_kept:
  "entry_kept k s (snd (getOrSet_call k' fetchFn customTtl startTime now now' now'' s))"
proof -
  obtain v s1 where g: "get now now' k' s = (v, s1)" by (cases "get now now' k' s")
  have "entry_kept k s s1"
    using get_kept [of k s now now' k'] g by simp
  then show ?thesis
    using g
    by (auto simp: getOrSet_call_def updateStats_def Let_def entry_kept_def entry_kept_refl
        split: option.split supplier.split)
qed

lemma fetch_settle_kept:
  assumes "\<not> stores_key k (FetchSettledEv p r now) s"
  shows "entry_kept k s (fetch_settle cs config p r now s)"
proof (cases "p < length (promises s) \<and> fetch_status (promises s ! p) = None")
  case False
  then show ?thesis by (auto simp: fetch_settle_def entry_kept_refl)
next
  case True
  show ?thesis
  proof (cases r)
    case (Rejected e)
    then show ?thesis using True by (simp add: fetch_settle_def Let_def entry_kept_cache)
  next
    case (Fulfilled d)
    have ne: "fetch_key (promises s ! p) \<noteq> k"
      using assms True Fulfilled by simp
    have "entry_kept k s
        (set_cache cs config now (fetch_key (promises s ! p)) d (fetch_ttl (promises s ! p)) (Some (cs d)) s)"
      by (rule set_cache_kept [OF ne])
    then show ?thesis
      using True Fulfilled by (simp add: fetch_settle_def Let_def entry_kept_def)
  qed
qed

lemma caller_resume_kept: "entry_kept k s (snd (caller_resume c now s))"
  by (simp add: caller_resume_def updateStats_def entry_kept_refl entry_kept_cache
      split: call.split option.split settled.split)

lemma cache_step_kept:
  assumes "\<not> stores_key k ev s"
  shows "entry_kept k s (cache_step cs config ev s)"
proof (cases ev)
  case (SetEv k' d customTtl sz now)
  then show ?thesis using assms by (simp add: set_cache_kept)
next
  case (FetchSettledEv p r now)
  then show ?thesis using assms fetch_settle_kept [of k p r now s] by simp
next
  case ClearEv
  then show ?thesis by (simp add: clear_def entry_kept_def)
qed (simp_all add: get_kept has_kept deleteFn_def deleteEntry_kept cleanupStaleEntries_kept
      getOrSet_call_kept caller_resume_kept)

lemma cache_steps_kept:
  "\<not> stored_again cs config k evs s \<Longrightarrow> entry_kept k s (cache_steps cs config evs s)"
proof (induction evs arbitrary: s)
  case Nil
  then show ?case by (simp add: cache_steps_def entry_kept_refl)
next
  case (Cons ev evs)
  have "entry_kept k s (cache_step cs config ev s)"
    using Cons.prems by (simp add: cache_step_kept)
  moreover have "entry_kept k (cache_step cs config ev s) (cache_steps cs config evs (cache_step cs config ev s))"
    using Cons.IH Cons.prems by (simp add: cache_steps_def)
  ultimately show ?case
    using entry_kept_trans by (fastforce simp: cache_steps_def)
qed

lemma get_absent:
  assumes "map_of (cache s) k = None"
  shows "fst (get now now' k s) = None"
    and "misses (stats (snd (get now now' k s))) = misses (stats s) + 1"
    and "map_of (cache (snd (get now now' k s))) k = None"
  using assms by (simp_all add: get_def)

lemma has_absent:
  assumes "map_of (cache s) k = None"
  shows "fst (has now k s) = False"
    and "map_of (cache (snd (has now k s))) k = None"
  using assms by (simp_all add: has_def)

text \<open>
  Claim C8 (an entry stored with TTL \<open>t\<close> is a miss once \<open>now - setTime > t\<close>). Here
  \<open>t\<close> is the TTL that \<open>set\<close> uses: the custom one when it is given and not 0, the
  configured one otherwise. After \<open>set\<close> at \<open>setTime\<close> and any run of cache steps that
  does not store the key again (reads of the entry included), at every \<open>now\<close> with
  \<open>now - setTime > t\<close>: \<open>get\<close> returns \<open>null\<close>, counts one more miss and leaves no
  entry for the key; \<open>has\<close> returns \<open>false\<close> and leaves no entry for the key. No sweep
  is needed.
\<close>

theorem expired_entry_is_a_miss:
  assumes stored: "s0 = set_cache cs config setTime k d customTtl sz s"
    and t: "customTtl = Some t \<and> t \<noteq> 0 \<or> (customTtl = None \<or> customTtl = Some 0) \<and> t = ttl config"
    and run: "s' = cache_steps cs config evs s0"
    and same: "\<not> stored_again cs config k evs s0"
    and late: "now - setTime > t"
  shows "fst (get now now' k s') = None
       \<and> misses (stats (snd (get now now' k s'))) = misses (stats s') + 1
       \<and> map_of (cache (snd (get now now' k s'))) k = None
       \<and> fst (has now k s') = False
       \<and> map_of (cache (snd (has now k s'))) k = None"
proof -
  define e where "e = \<lparr>data = d, expiresAt = setTime + t, lastAccessed = setTime,
    size_entry = (case sz of None \<Rightarrow> cs d | Some n \<Rightarrow> if n = 0 then cs d else n)\<rparr>"
  have "(case customTtl of None \<Rightarrow> ttl config | Some c \<Rightarrow> if c = 0 then ttl config else c) = t"
    using t by auto
  then have look: "map_of (cache s0) k = Some e"
    unfolding stored e_def using map_of_set_cache [of cs config setTime k d customTtl sz s] by simp
  have kept: "entry_kept k s0 s'"
    unfolding run using same by (rule cache_steps_kept)
  show ?thesis
  proof (cases "map_of (cache s') k")
    case None
    then show ?thesis using get_absent [OF None] has_absent [OF None] by simp
  next
    case (Some e')
    then have "expiresAt e' = setTime + t"
      using kept look by (simp add: entry_kept_def e_def)
    then have exp: "now > expiresAt e'"
      using late by simp
    show ?thesis
      using get_expired [OF Some exp] has_expired [OF Some exp] by simp
  qed
qed

theorem expired_entry_is_a_miss_witness:
  "(let s0 = set_cache (\<lambda>d. 1024) defaultOptions 0 ''k'' (Some (7::int)) (Some 50) None initial;
        evs = [GetEv ''k'' 40 40, SetEv ''o'' (Some 1) None None 45, HasEv ''k'' 50];
        s' = cache_steps (\<lambda>d. 1024) defaultOptions evs s0
    in fst (get 40 40 ''k'' s0) = Some 7
     \<and> \<not> stored_again (\<lambda>d. 1024) defaultOptions ''k'' evs s0
     \<and> getKeys s' = [''k'', ''o'']
     \<and> (60::int) - 0 > 50
     \<and> fst (get 60 60 ''k'' s') = None
     \<and> misses (stats (snd (get 60 60 ''k'' s'))) = misses (stats s') + 1
     \<and> getKeys (snd (get 60 60 ''k'' s')) = [''o'']
     \<and> fst (has 60 ''k'' s') = False
     \<and> getKeys (snd (has 60 ''k'' s')) = [''o''])"
proof -
  define S :: "(key \<times> int CacheEntry) list \<Rightarrow> key list \<Rightarrow> int \<Rightarrow> int cstate"
    where "S c ao h =
      \<lparr>cache = c, accessOrder = ao, pendingFetches = [],
       stats = \<lparr>hits = h, misses = 0, size_stats = int (length c), totalSizeBytes = 1024 * int (length c),
                averageResponseTime = 0, evictions = 0, staleEntriesCleaned = 0\<rparr>,
       totalResponseTime = 0, totalRequests = 0, promises = []\<rparr>" for c ao h
  define ek where "ek l = (''k'', \<lparr>data = Some (7::int), expiresAt = 50, lastAccessed = l, size_entry = 1024\<rparr>)" for l
  define eo where "eo = (''o'', \<lparr>data = Some (1::int), expiresAt = 60045, lastAccessed = 45, size_entry = 1024\<rparr>)"
  define evs :: "int cevent list"
    where "evs = [GetEv ''k'' 40 40, SetEv ''o'' (Some 1) None None 45, HasEv ''k'' 50]"
  define s0 where "s0 = set_cache (\<lambda>d. 1024) defaultOptions 0 ''k'' (Some (7::int)) (Some 50) None initial"
  have s0: "s0 = S [ek 0] [''k''] 0"
    by (simp add: s0_def cache_defs defaultOptions_def initial_def S_def ek_def Let_def)
  have e1: "get 40 40 ''k'' (S [ek 0] [''k''] 0) = (Some 7, S [ek 40] [''k''] 1)"
    by (simp add: get_def updateAccessOrder_def removeFromAccessOrder_def S_def ek_def Let_def)
  have e2: "set_cache (\<lambda>d. 1024) defaultOptions 45 ''o'' (Some 1) None None (S [ek 40] [''k''] 1) =
      S [ek 40, eo] [''o'', ''k''] 1"
    by (simp add: cache_defs defaultOptions_def S_def ek_def eo_def Let_def)
  have e3: "has 50 ''k'' (S [ek 40, eo] [''o'', ''k''] 1) = (True, S [ek 40, eo] [''o'', ''k''] 1)"
    by (simp add: has_def S_def ek_def eo_def)
  have run: "cache_steps (\<lambda>d. 1024) defaultOptions evs s0 = S [ek 40, eo] [''o'', ''k''] 1"
    by (simp add: cache_steps_def evs_def s0 e1 e2 e3)
  have same: "\<not> stored_again (\<lambda>d. 1024) defaultOptions ''k'' evs s0"
    by (simp add: evs_def)
  have g: "getKeys (snd (get 60 60 ''k'' (S [ek 40, eo] [''o'', ''k''] 1))) = [''o'']"
    and h: "getKeys (snd (has 60 ''k'' (S [ek 40, eo] [''o'', ''k''] 1))) = [''o'']"
    by (simp_all add: cache_defs S_def ek_def eo_def getKeys_def Let_def)
  have keys: "getKeys (S [ek 40, eo] [''o'', ''k''] 1) = [''k'', ''o'']"
    by (simp add: getKeys_def S_def ek_def eo_def)
  note inst = expired_entry_is_a_miss [OF s0_def _ run [symmetric] same, of 50 60 60]
  show ?thesis
    unfolding Let_def s0_def [symmetric] evs_def [symmetric]
    using inst same by (simp add: run g h keys) (simp add: s0 e1)
qed

text \<open>
  With \<open>t\<close> the TTL passed to \<open>set\<close>, the statement of claim C8 does not hold for
  \<open>t = 0\<close>: \<open>customTtl || config.ttl\<close> replaces a custom TTL of 0 by the configured
  one, so an entry set at time 0 with TTL 0 is still a hit at time 1, and \<open>has\<close> finds
  it.
\<close>

theorem zero_ttl_entry_is_a_hit:
  "(let s = set_cache (\<lambda>d. 1024) defaultOptions 0 ''k'' (Some (7::int)) (Some 0) None initial
    in (1::int) - 0 > 0
     \<and> fst (get 1 1 ''k'' s) = Some 7
     \<and> misses (stats (snd (get 1 1 ''k'' s))) = misses (stats s)
     \<and> getKeys (snd (get 1 1 ''k'' s)) = [''k'']
     \<and> fst (has 1 ''k'' s) = True
     \<and> getKeys (snd (has 1 ''k'' s)) = [''k''])"
  by (simp add: cache_defs defaultOptions_def initial_def getKeys_def Let_def)



subsection \<open>The steps of \<open>getOrSet\<close>\<close>


lemma get_pendingFetches:
  "pendingFetches (snd (get now now' k s)) = pendingFetches s"
  "promises (snd (get now now' k s)) = promises s"
  by (simp_all add: get_def deleteEntry_def updateAccessOrder_def removeFromAccessOrder_def Let_def
      split: option.split)

lemma getOrSet_call_starts:
  assumes "map_of (pendingFetches s) k = None" and "fst (get now now' k s) = None"
  shows "fst (getOrSet_call k fetchFn customTtl startTime now now' now'' s) =
           Started (length (promises s)) startTime"
    and "map_of (pendingFetches (snd (getOrSet_call k fetchFn customTtl startTime now now' now'' s))) k =
           Some (length (promises s))"
proof -
  obtain s1 where g: "get now now' k s = (None, s1)"
    using assms(2) by (cases "get now now' k s") simp
  have p: "promises s1 = promises s"
    using get_pendingFetches(2) [of now now' k s] g by simp
  show "fst (getOrSet_call k fetchFn customTtl startTime now now' now'' s) =
           Started (length (promises s)) startTime"
    using assms(1) g p by (simp add: getOrSet_call_def Let_def split: supplier.split)
  show "map_of (pendingFetches (snd (getOrSet_call k fetchFn customTtl startTime now now' now'' s))) k =
           Some (length (promises s))"
    using assms(1) g p by (simp add: getOrSet_call_def Let_def update_conv' split: supplier.split)
qed


lemma rejected_fetch_is_retried:
  assumes idle: "map_of (pendingFetches s) k = None" and miss: "fst (get now now' k s) = None"
    and call: "(c, s1) = getOrSet_call k ReturnsPromise customTtl startTime now now' now'' s"
    and settle: "s2 = fetch_settle cs config (length (promises s)) (Rejected e) t s1"
  shows "c = Started (length (promises s)) startTime"
    and "promise_status s2 (length (promises s)) = Some (Rejected e)"
    and "cache s2 = cache s1"
    and "map_of (pendingFetches s2) k = None"
    and "fst (get t1 t1' k s2) = None \<Longrightarrow>
           fst (getOrSet_call k fetchFn customTtl' startTime' t1 t1' t1'' s2) =
             Started (length (promises s2)) startTime'"
proof -
  obtain s0 where g: "get now now' k s = (None, s0)"
    using miss by (cases "get now now' k s") simp
  have p0: "promises s0 = promises s" and f0: "pendingFetches s0 = pendingFetches s"
    using get_pendingFetches [of now now' k s] g by simp_all
  have s1: "s1 = s0\<lparr>promises := promises s @ [\<lparr>fetch_key = k, fetch_ttl = customTtl, fetch_status = None\<rparr>],
                    pendingFetches := AList.update k (length (promises s)) (pendingFetches s)\<rparr>"
    and c: "c = Started (length (promises s)) startTime"
    using call idle g p0 f0 by (simp_all add: getOrSet_call_def Let_def)
  show "c = Started (length (promises s)) startTime" by (rule c)
  have s2: "s2 = s1\<lparr>pendingFetches := AList.delete k (pendingFetches s1),
                    promises := (promises s1)[length (promises s) :=
                       \<lparr>fetch_key = k, fetch_ttl = customTtl, fetch_status = Some (Rejected e)\<rparr>]\<rparr>"
    unfolding settle by (simp add: fetch_settle_def s1 Let_def)
  show "promise_status s2 (length (promises s)) = Some (Rejected e)"
    by (simp add: s2 s1 promise_status_def)
  show "cache s2 = cache s1" by (simp add: s2)
  show idle2: "map_of (pendingFetches s2) k = None"
    by (simp add: s2 delete_conv')
  show "fst (getOrSet_call k fetchFn customTtl' startTime' t1 t1' t1'' s2) =
             Started (length (promises s2)) startTime'"
    if "fst (get t1 t1' k s2) = None"
    by (rule getOrSet_call_starts(1) [OF idle2 that])
qed

text \<open>
  Claim C9 (a failed supplier leaves no entry, and the key's registration is removed when
  the fetch settles, so the next \<open>getOrSet\<close> runs the supplier again). The closure is
  started before \<open>pendingFetches.set\<close>: when the supplier throws instead of returning a
  promise, the \<open>finally\<close> block has already run when the rejected promise is
  registered, and nothing removes it afterwards. The first caller gets the failure; the
  second call for the key, with a supplier that would succeed, joins the rejected
  promise without calling its supplier and gets the same failure; the registration is
  still there.
  A supplier whose promise is rejected later is handled as the claim says (lemma
  \<open>rejected_fetch_is_retried\<close>).
\<close>

theorem thrown_failure_stays_registered:
  "(let (c1, s1) = getOrSet_call ''k'' (Throws ''boom'') None 0 0 0 0 (initial :: nat cstate);
        (r1, s2) = caller_resume c1 1 s1;
        (c2, s3) = getOrSet_call ''k'' ReturnsPromise None 5 5 5 5 s2;
        (r2, s4) = caller_resume c2 6 s3
    in c1 = Started 0 0 \<and> r1 = Some (Rejected ''boom'') \<and> map_of (pendingFetches s2) ''k'' = Some 0 \<and>
       c2 = Joined 0 \<and> r2 = Some (Rejected ''boom'') \<and> map_of (pendingFetches s4) ''k'' = Some 0)"
  by (simp add: getOrSet_defs cache_defs initial_def Let_def)

subsection \<open>Bound and eviction order\<close>

lemma butlast_remove1_last: "distinct xs \<Longrightarrow> xs \<noteq> [] \<Longrightarrow> butlast xs = remove1 (last xs) xs"
  by (induction xs) auto

lemma length_delete_present:
  "distinct (map fst al) \<Longrightarrow> k \<in> fst ` set al \<Longrightarrow> Suc (length (AList.delete k al)) = length al"
proof (induction al)
  case Nil
  then show ?case by simp
next
  case (Cons p al)
  show ?case
  proof (cases "fst p = k")
    case True
    then have "k \<notin> fst ` set al" using Cons.prems(1) by auto
    then show ?thesis using True by simp
  next
    case False
    then show ?thesis using Cons by auto
  qed
qed

lemma length_update_alist:
  "length (AList.update k v al) = (if k \<in> fst ` set al then length al else Suc (length al))"
  by (induction al) auto

lemma sorted_wrt_remove1: "sorted_wrt R xs \<Longrightarrow> sorted_wrt R (remove1 k xs)"
  by (induction xs) (auto dest: notin_set_remove1)

lemma map_of_None_keys: "map_of (cache s) k = None \<longleftrightarrow> k \<notin> set (getKeys s)"
  by (simp add: getKeys_def map_of_eq_None_iff)

text \<open>Removal of a key\<close>

lemma cache_inv_remove:
  assumes "cache_inv config s"
    and "cache s' = AList.delete k (cache s)"
    and "accessOrder s' = remove1 k (accessOrder s)"
  shows "cache_inv config s'"
proof -
  have "int (length (cache s')) \<le> int (length (cache s))"
    using assms(2) by (simp add: length_delete_le)
  moreover have "set (remove1 k (accessOrder s)) = set (removeAll k (getKeys s))"
    using assms(1) by (simp add: cache_inv_def)
  ultimately show ?thesis
    using assms by (simp add: cache_inv_def getKeys_def delete_keys distinct_removeAll)
qed

lemma recency_inv_remove:
  assumes "recency_inv u n s" and "accessOrder s' = remove1 k (accessOrder s)" and "n \<le> n'"
  shows "recency_inv u n' s'"
  using assms unfolding recency_inv_def
  by (auto simp: sorted_wrt_remove1 dest!: notin_set_remove1 [rotated] intro: le_trans)

text \<open>Use of a key\<close>

lemma cache_inv_use:
  assumes "cache_inv config s"
    and "cache s' = AList.update k e (cache s)"
    and "accessOrder s' = k # remove1 k (accessOrder s)"
    and "k \<in> set (getKeys s) \<or> int (length (cache s)) < maxSize config"
  shows "cache_inv config s'"
proof -
  have d: "distinct (getKeys s')"
    using assms(1,2) by (simp add: cache_inv_def getKeys_def distinct_update)
  have k: "set (getKeys s') = insert k (set (getKeys s))"
    using assms(2) dom_update [of k e "cache s"] by (simp add: getKeys_def)
  have a: "set (accessOrder s') = insert k (set (getKeys s))"
    using assms(1,3) by (auto simp: cache_inv_def)
  have l: "int (length (cache s')) \<le> maxSize config"
    using assms(1,2,4) by (auto simp: cache_inv_def getKeys_def length_update_alist)
  show ?thesis
    using assms(1,3) d k a l by (simp add: cache_inv_def)
qed

lemma recency_inv_use:
  assumes "recency_inv u n s" and "distinct (accessOrder s)"
    and "accessOrder s' = k # remove1 k (accessOrder s)"
  shows "recency_inv (u(k := Suc n)) (Suc n) s'"
proof -
  let ?r = "remove1 k (accessOrder s)"
  have notin: "k \<notin> set ?r" using assms(2) by simp
  have sub: "set ?r \<subseteq> set (accessOrder s)" by (rule set_remove1_subset)
  have bound: "\<forall>x \<in> set ?r. u x \<le> n" using assms(1) sub by (auto simp: recency_inv_def)
  have "sorted_wrt (\<lambda>a b. u b < u a) ?r"
    using assms(1) by (simp add: recency_inv_def sorted_wrt_remove1)
  then have "sorted_wrt (\<lambda>a b. (u(k := Suc n)) b < (u(k := Suc n)) a) ?r"
    using notin by (auto elim!: sorted_wrt_mono_rel [rotated])
  then show ?thesis
    using notin bound assms(3) by (auto simp: recency_inv_def le_SucI less_Suc_eq_le)
qed

text \<open>The primitives\<close>

lemma deleteEntry_effect:
  assumes "cache_inv config s"
  shows "cache (snd (deleteEntry k s)) = AList.delete k (cache s)"
    and "accessOrder (snd (deleteEntry k s)) = remove1 k (accessOrder s)"
proof -
  have "map_of (cache s) k = None \<Longrightarrow> k \<notin> set (accessOrder s) \<and> k \<notin> fst ` set (cache s)"
    using assms by (simp add: cache_inv_def map_of_None_keys) (simp add: getKeys_def)
  then show "cache (snd (deleteEntry k s)) = AList.delete k (cache s)"
    and "accessOrder (snd (deleteEntry k s)) = remove1 k (accessOrder s)"
    by (auto simp: deleteEntry_def removeFromAccessOrder_def Let_def remove1_idem split: option.split)
qed

lemma evictLRU_present:
  assumes "accessOrder s \<noteq> []" and "map_of (cache s) (last (accessOrder s)) = Some e"
  shows "evictLRU s =
     s\<lparr>accessOrder := butlast (accessOrder s),
       cache := AList.delete (last (accessOrder s)) (cache s),
       stats := (stats s)\<lparr>totalSizeBytes := totalSizeBytes (stats s) - size_entry e,
                           evictions := evictions (stats s) + 1,
                           size_stats := int (length (AList.delete (last (accessOrder s)) (cache s)))\<rparr>\<rparr>"
  unfolding evictLRU_def Let_def using assms by simp

lemma evictLRU_effect:
  assumes "cache_inv config s" and "accessOrder s \<noteq> []"
  shows "cache (evictLRU s) = AList.delete (last (accessOrder s)) (cache s)"
    and "accessOrder (evictLRU s) = remove1 (last (accessOrder s)) (accessOrder s)"
    and "evictions (stats (evictLRU s)) = evictions (stats s) + 1"
proof -
  have "last (accessOrder s) \<in> set (accessOrder s)"
    using assms(2) by (rule last_in_set)
  moreover have "set (accessOrder s) = set (getKeys s)"
    using assms(1) by (simp add: cache_inv_def)
  ultimately have "map_of (cache s) (last (accessOrder s)) \<noteq> None"
    by (simp add: map_of_None_keys)
  then obtain e where e: "map_of (cache s) (last (accessOrder s)) = Some e"
    by blast
  note closed = evictLRU_present [OF assms(2) e]
  have b: "butlast (accessOrder s) = remove1 (last (accessOrder s)) (accessOrder s)"
    using assms by (simp add: cache_inv_def butlast_remove1_last)
  show "cache (evictLRU s) = AList.delete (last (accessOrder s)) (cache s)"
    by (subst closed) simp
  show "accessOrder (evictLRU s) = remove1 (last (accessOrder s)) (accessOrder s)"
    by (subst closed) (simp add: b)
  show "evictions (stats (evictLRU s)) = evictions (stats s) + 1"
    by (subst closed) simp
qed

lemma set_cache_effect:
  "cache (set_cache cs config now k d customTtl sz s) =
     AList.update k
       \<lparr>data = d,
        expiresAt = now + (case customTtl of None \<Rightarrow> ttl config | Some t \<Rightarrow> if t = 0 then ttl config else t),
        lastAccessed = now,
        size_entry = (case sz of None \<Rightarrow> cs d | Some n \<Rightarrow> if n = 0 then cs d else n)\<rparr>
       (cache (make_room config k s))"
  "accessOrder (set_cache cs config now k d customTtl sz s) = k # remove1 k (accessOrder (make_room config k s))"
  "evictions (stats (set_cache cs config now k d customTtl sz s)) = evictions (stats (make_room config k s))"
  by (simp_all add: set_cache_make_room Let_def)

lemma make_room_inv:
  assumes "cache_inv config s"
  shows "cache_inv config (make_room config k s)"
proof (cases "int (length (cache s)) \<ge> maxSize config \<and> map_of (cache s) k = None \<and> accessOrder s \<noteq> []")
  case True
  then show ?thesis
    using cache_inv_remove [OF assms evictLRU_effect(1,2) [OF assms]] by (simp add: make_room_def)
next
  case False
  then show ?thesis using assms by (auto simp: make_room_def evictLRU_def)
qed

lemma make_room_recency:
  assumes "cache_inv config s" and "recency_inv u n s"
  shows "recency_inv u n (make_room config k s)"
proof (cases "int (length (cache s)) \<ge> maxSize config \<and> map_of (cache s) k = None \<and> accessOrder s \<noteq> []")
  case True
  then show ?thesis
    using recency_inv_remove [OF assms(2) evictLRU_effect(2) [OF assms(1)]] by (simp add: make_room_def)
next
  case False
  then show ?thesis using assms by (auto simp: make_room_def evictLRU_def)
qed

lemma accessOrder_nonempty:
  assumes "cache_inv config s" and "0 < length (cache s)"
  shows "accessOrder s \<noteq> []"
proof
  assume "accessOrder s = []"
  then have "set (getKeys s) = {}" using assms(1) by (simp add: cache_inv_def)
  then show False using assms(2) by (simp add: getKeys_def)
qed

lemma make_room_space:
  assumes "cache_inv config s" and "0 < maxSize config"
  shows "k \<in> set (getKeys (make_room config k s)) \<or>
         int (length (cache (make_room config k s))) < maxSize config"
proof (cases "int (length (cache s)) \<ge> maxSize config \<and> map_of (cache s) k = None")
  case True
  then have "0 < length (cache s)"
    using assms(2) by linarith
  then have ne: "accessOrder s \<noteq> []"
    by (rule accessOrder_nonempty [OF assms(1)])
  have "last (accessOrder s) \<in> set (accessOrder s)"
    using ne by (rule last_in_set)
  moreover have "set (accessOrder s) = fst ` set (cache s)"
    using assms(1) by (simp add: cache_inv_def getKeys_def)
  ultimately have "last (accessOrder s) \<in> fst ` set (cache s)"
    by simp
  then have "Suc (length (cache (evictLRU s))) = length (cache s)"
    using assms(1) evictLRU_effect(1) [OF assms(1) ne]
    by (simp add: length_delete_present cache_inv_def getKeys_def)
  then show ?thesis
    using True assms(1) by (auto simp: make_room_def cache_inv_def)
next
  case False
  then show ?thesis by (auto simp: make_room_def map_of_None_keys)
qed

lemma set_cache_inv:
  assumes "cache_inv config s" and "0 < maxSize config"
  shows "cache_inv config (set_cache cs config now k d customTtl sz s)"
proof -
  show ?thesis
    by (rule cache_inv_use [OF make_room_inv [OF assms(1)] set_cache_effect(1,2)
          make_room_space [OF assms]])
qed

lemma set_cache_recency:
  assumes "cache_inv config s" and "recency_inv u n s"
  shows "recency_inv (u(k := Suc n)) (Suc n) (set_cache cs config now k d customTtl sz s)"
proof -
  have "distinct (accessOrder (make_room config k s))"
    using make_room_inv [OF assms(1)] by (simp add: cache_inv_def)
  then show ?thesis
    by (rule recency_inv_use [OF make_room_recency [OF assms] _ set_cache_effect(2)])
qed

lemma cache_inv_same:
  "cache s' = cache s \<Longrightarrow> accessOrder s' = accessOrder s \<Longrightarrow> cache_inv config s \<Longrightarrow> cache_inv config s'"
  by (simp add: cache_inv_def getKeys_def)

lemma recency_inv_same:
  "accessOrder s' = accessOrder s \<Longrightarrow> n \<le> n' \<Longrightarrow> recency_inv u n s \<Longrightarrow> recency_inv u n' s'"
  by (auto simp: recency_inv_def intro: le_trans)

lemma deleteEntry_inv:
  assumes "cache_inv config s"
  shows "cache_inv config (snd (deleteEntry k s))"
  by (rule cache_inv_remove [OF assms deleteEntry_effect [OF assms]])

lemma deleteEntry_recency:
  assumes "cache_inv config s" and "recency_inv u n s" and "n \<le> n'"
  shows "recency_inv u n' (snd (deleteEntry k s))"
  by (rule recency_inv_remove [OF assms(2) deleteEntry_effect(2) [OF assms(1)] assms(3)])

lemma get_inv:
  assumes "cache_inv config s"
  shows "cache_inv config (snd (get now now' k s))"
proof (cases "map_of (cache s) k")
  case None
  then show ?thesis
    using assms by (auto simp: get_def elim!: cache_inv_same [rotated 2])
next
  case (Some e)
  show ?thesis
  proof (cases "now > expiresAt e")
    case True
    then show ?thesis
      using Some deleteEntry_inv [OF assms, of k]
      by (auto simp: get_def Let_def elim!: cache_inv_same [rotated 2])
  next
    case False
    have "k \<in> set (getKeys s)"
      using Some map_of_None_keys [of s k] by auto
    then have "cache_inv config (s\<lparr>cache := AList.update k (e\<lparr>lastAccessed := now'\<rparr>) (cache s),
        accessOrder := k # remove1 k (accessOrder s)\<rparr>)"
      by (intro cache_inv_use [OF assms, where k = k and e = "e\<lparr>lastAccessed := now'\<rparr>"]) simp_all
    then show ?thesis
      using Some False
      by (auto simp: get_def Let_def updateAccessOrder_def removeFromAccessOrder_def
          elim!: cache_inv_same [rotated 2])
  qed
qed

lemma get_recency:
  assumes "cache_inv config s" and "recency_inv u n s"
  shows "recency_inv (if live_at now k s then u(k := Suc n) else u) (Suc n) (snd (get now now' k s))"
proof (cases "map_of (cache s) k")
  case None
  then show ?thesis
    using assms(2) by (auto simp: get_def live_at_def elim!: recency_inv_same [rotated 2])
next
  case (Some e)
  show ?thesis
  proof (cases "now > expiresAt e")
    case True
    then show ?thesis
      using Some deleteEntry_recency [OF assms, of "Suc n" k]
      by (auto simp: get_def live_at_def Let_def elim!: recency_inv_same [rotated 2])
  next
    case False
    have "distinct (accessOrder s)" using assms(1) by (simp add: cache_inv_def)
    then have "recency_inv (u(k := Suc n)) (Suc n) (s\<lparr>accessOrder := k # remove1 k (accessOrder s)\<rparr>)"
      by (intro recency_inv_use [OF assms(2)]) simp_all
    then show ?thesis
      using Some False
      by (auto simp: get_def live_at_def Let_def updateAccessOrder_def removeFromAccessOrder_def
          elim!: recency_inv_same [rotated 2])
  qed
qed

lemma has_inv:
  assumes "cache_inv config s"
  shows "cache_inv config (snd (has now k s))"
  using assms deleteEntry_inv [OF assms, of k] by (auto simp: has_def split: option.split)

lemma has_recency:
  assumes "cache_inv config s" and "recency_inv u n s"
  shows "recency_inv u (Suc n) (snd (has now k s))"
  using deleteEntry_recency [OF assms, of "Suc n" k] recency_inv_same [OF refl _ assms(2), of "Suc n"]
  by (auto simp: has_def split: option.split)

lemma clear_inv: "0 < maxSize config \<Longrightarrow> cache_inv config (clear s)"
  by (simp add: clear_def cache_inv_def getKeys_def)

lemma clear_recency: "recency_inv u n (clear s)"
  by (simp add: clear_def recency_inv_def)

lemma sweep_fold_inv:
  assumes "cache_inv config s" and "recency_inv u n s" and "n \<le> n'"
  shows "cache_inv config (fst (fold (\<lambda>(k, entry) (t, c).
            if now > expiresAt entry then (snd (deleteEntry k t), c + 1) else (t, c)) xs (s, c0 :: int)))
       \<and> recency_inv u n' (fst (fold (\<lambda>(k, entry) (t, c).
            if now > expiresAt entry then (snd (deleteEntry k t), c + 1) else (t, c)) xs (s, c0)))"
  using assms
proof (induction xs arbitrary: s c0 n)
  case Nil
  then show ?case by (auto elim: recency_inv_same [rotated 2])
next
  case (Cons x xs)
  obtain k e where x: "x = (k, e)" by (cases x)
  show ?case
  proof (cases "now > expiresAt e")
    case True
    show ?thesis
      using Cons.IH [OF deleteEntry_inv [OF Cons.prems(1)]
          deleteEntry_recency [OF Cons.prems(1,2) le_refl] Cons.prems(3), of k "c0 + 1"] True
      by (simp add: x)
  next
    case False
    then show ?thesis
      using Cons.IH [OF Cons.prems, of c0] by (simp add: x)
  qed
qed

lemma cleanupStaleEntries_inv:
  assumes "cache_inv config s" and "recency_inv u n s"
  shows "cache_inv config (cleanupStaleEntries now s)"
    and "recency_inv u (Suc n) (cleanupStaleEntries now s)"
  using sweep_fold_inv [OF assms, of "Suc n" now "cache s" 0]
  by (auto simp: cleanupStaleEntries_def Let_def split: prod.split
      elim!: cache_inv_same [rotated 2] recency_inv_same [rotated 2])

lemma getOrSet_call_inv:
  assumes "cache_inv config s"
  shows "cache_inv config (snd (getOrSet_call k fetchFn customTtl startTime now now' now'' s))"
proof (cases "map_of (pendingFetches s) k")
  case (Some p)
  then show ?thesis using assms by (simp add: getOrSet_call_def)
next
  case None
  obtain v s1 where g: "get now now' k s = (v, s1)" by (cases "get now now' k s")
  have "cache_inv config s1" using get_inv [OF assms, of now now' k] g by simp
  then show ?thesis
    using None g
    by (auto simp: getOrSet_call_def updateStats_def Let_def split: option.split supplier.split
        elim!: cache_inv_same [rotated 2])
qed

lemma getOrSet_call_recency:
  assumes "cache_inv config s" and "recency_inv u n s"
  shows "recency_inv (if map_of (pendingFetches s) k = None \<and> live_at now k s then u(k := Suc n) else u)
           (Suc n) (snd (getOrSet_call k fetchFn customTtl startTime now now' now'' s))"
proof (cases "map_of (pendingFetches s) k")
  case (Some p)
  then show ?thesis
    using recency_inv_same [OF refl _ assms(2), of "Suc n"] by (simp add: getOrSet_call_def)
next
  case None
  obtain v s1 where g: "get now now' k s = (v, s1)" by (cases "get now now' k s")
  have "recency_inv (if live_at now k s then u(k := Suc n) else u) (Suc n) s1"
    using get_recency [OF assms, of now k now'] g by simp
  then show ?thesis
    using None g
    by (auto simp: getOrSet_call_def updateStats_def Let_def split: option.split supplier.split
        elim!: recency_inv_same [rotated 2])
qed

lemma fetch_settle_same:
  "cache (fetch_settle cs config p r now s) =
     cache (case used_key (FetchSettledEv p r now) s of None \<Rightarrow> s
            | Some k \<Rightarrow> set_cache cs config now k (case r of Fulfilled d \<Rightarrow> d)
                (fetch_ttl (promises s ! p)) (Some (cs (case r of Fulfilled d \<Rightarrow> d))) s)"
  "accessOrder (fetch_settle cs config p r now s) =
     accessOrder (case used_key (FetchSettledEv p r now) s of None \<Rightarrow> s
            | Some k \<Rightarrow> set_cache cs config now k (case r of Fulfilled d \<Rightarrow> d)
                (fetch_ttl (promises s ! p)) (Some (cs (case r of Fulfilled d \<Rightarrow> d))) s)"
  by (auto simp: fetch_settle_def Let_def split: settled.split)

lemma fetch_settle_inv:
  assumes "cache_inv config s" and "0 < maxSize config"
  shows "cache_inv config (fetch_settle cs config p r now s)"
proof (rule cache_inv_same [OF fetch_settle_same])
  show "cache_inv config (case used_key (FetchSettledEv p r now) s of None \<Rightarrow> s
            | Some k \<Rightarrow> set_cache cs config now k (case r of Fulfilled d \<Rightarrow> d)
                (fetch_ttl (promises s ! p)) (Some (cs (case r of Fulfilled d \<Rightarrow> d))) s)"
    using assms(1) set_cache_inv [OF assms] by (simp split: option.split)
qed

lemma fetch_settle_recency:
  assumes "cache_inv config s" and "recency_inv u n s"
  shows "recency_inv (case used_key (FetchSettledEv p r now) s of None \<Rightarrow> u | Some k \<Rightarrow> u(k := Suc n))
           (Suc n) (fetch_settle cs config p r now s)"
proof (rule recency_inv_same [OF fetch_settle_same(2) le_refl])
  show "recency_inv (case used_key (FetchSettledEv p r now) s of None \<Rightarrow> u | Some k \<Rightarrow> u(k := Suc n))
     (Suc n) (case used_key (FetchSettledEv p r now) s of None \<Rightarrow> s
            | Some k \<Rightarrow> set_cache cs config now k (case r of Fulfilled d \<Rightarrow> d)
                (fetch_ttl (promises s ! p)) (Some (cs (case r of Fulfilled d \<Rightarrow> d))) s)"
    using set_cache_recency [OF assms] recency_inv_same [OF refl _ assms(2), of "Suc n"]
    by (simp split: option.split)
qed

lemma caller_resume_same:
  "cache (snd (caller_resume c now s)) = cache s"
  "accessOrder (snd (caller_resume c now s)) = accessOrder s"
  by (simp_all add: caller_resume_def updateStats_def split: call.split option.split settled.split)

lemma cache_step_inv:
  assumes "0 < maxSize config" and "cache_inv config s" and "recency_inv u n s"
  shows "cache_inv config (cache_step cs config ev s)"
    and "recency_inv (case used_key ev s of None \<Rightarrow> u | Some k \<Rightarrow> u(k := Suc n)) (Suc n)
           (cache_step cs config ev s)"
proof -
  show "cache_inv config (cache_step cs config ev s)"
  proof (cases ev)
    case (ResumeEv c now)
    then show ?thesis
      using cache_inv_same [OF caller_resume_same assms(2)] by simp
  qed (simp_all add: assms set_cache_inv get_inv has_inv deleteFn_def deleteEntry_inv clear_inv
        cleanupStaleEntries_inv(1) [OF assms(2,3)] getOrSet_call_inv fetch_settle_inv)
  show "recency_inv (case used_key ev s of None \<Rightarrow> u | Some k \<Rightarrow> u(k := Suc n)) (Suc n)
           (cache_step cs config ev s)"
  proof (cases ev)
    case (SetEv k d customTtl sz now)
    then show ?thesis using set_cache_recency [OF assms(2,3)] by simp
  next
    case (GetEv k now now')
    then show ?thesis
      using get_recency [OF assms(2,3), of now k now'] by (cases "live_at now k s") simp_all
  next
    case (HasEv k now)
    then show ?thesis using has_recency [OF assms(2,3)] by simp
  next
    case (DeleteEv k)
    then show ?thesis using deleteEntry_recency [OF assms(2,3), of "Suc n"] by (simp add: deleteFn_def)
  next
    case ClearEv
    then show ?thesis by (simp add: clear_recency)
  next
    case (SweepEv now)
    then show ?thesis using cleanupStaleEntries_inv(2) [OF assms(2,3)] by simp
  next
    case (GetOrSetEv k fetchFn customTtl startTime now now' now'')
    then show ?thesis
      using getOrSet_call_recency [OF assms(2,3), of k now fetchFn customTtl startTime now' now'']
      by (cases "map_of (pendingFetches s) k = None \<and> live_at now k s") auto
  next
    case (FetchSettledEv p r now)
    then show ?thesis using fetch_settle_recency [OF assms(2,3), of p r now cs] by simp
  next
    case (ResumeEv c now)
    then show ?thesis
      using recency_inv_same [OF caller_resume_same(2) _ assms(3), of "Suc n"] by simp
  qed
qed

lemma cache_run_inv:
  assumes "0 < maxSize config"
  shows "cache_inv config s \<Longrightarrow> recency_inv u n s \<Longrightarrow> cache_run cs config evs (s, u, n) = (s', u', n')
     \<Longrightarrow> cache_inv config s' \<and> recency_inv u' n' s'"
proof (induction evs arbitrary: s u n)
  case Nil
  then show ?case by simp
next
  case (Cons ev evs)
  show ?case
    using Cons.IH [OF cache_step_inv [OF assms Cons.prems(1,2)]] Cons.prems(3) by simp
qed

lemma initial_inv: "0 < maxSize config \<Longrightarrow> cache_inv config initial" "recency_inv (\<lambda>k. 0) 0 initial"
  by (simp_all add: cache_inv_def recency_inv_def initial_def getKeys_def)

lemma sorted_wrt_last:
  "sorted_wrt R xs \<Longrightarrow> xs \<noteq> [] \<Longrightarrow> x \<in> set (butlast xs) \<Longrightarrow> R x (last xs)"
  by (induction xs) (auto split: if_splits dest: in_set_butlastD)

lemma last_is_least_recent:
  assumes "recency_inv u n s" and "accessOrder s \<noteq> []"
    and "k' \<in> set (accessOrder s)" and "k' \<noteq> last (accessOrder s)"
  shows "u (last (accessOrder s)) < u k'"
proof -
  have "accessOrder s = butlast (accessOrder s) @ [last (accessOrder s)]"
    using assms(2) by simp
  then have "set (accessOrder s) = insert (last (accessOrder s)) (set (butlast (accessOrder s)))"
    by (metis Un_insert_right list.set(1) list.simps(15) set_append sup_bot.right_neutral)
  then have "k' \<in> set (butlast (accessOrder s))"
    using assms(3,4) by simp
  then show ?thesis
    using sorted_wrt_last [of "\<lambda>a b. u b < u a" "accessOrder s" k'] assms(1,2)
    by (simp add: recency_inv_def)
qed

lemma getKeys_set_cache:
  "set (getKeys (set_cache cs config now k d customTtl sz s)) =
     insert k (set (getKeys (make_room config k s)))"
  using dom_update [of k _ "cache (make_room config k s)"]
  by (simp add: getKeys_def set_cache_effect(1))

lemma set_cache_at_capacity:
  assumes inv: "cache_inv config s" and rec: "recency_inv u n s" and pos: "0 < maxSize config"
    and new: "map_of (cache s) k = None" and full: "int (length (cache s)) = maxSize config"
  shows "last (accessOrder s) \<in> set (getKeys s)"
    and "\<forall>k' \<in> set (getKeys s). k' \<noteq> last (accessOrder s) \<longrightarrow> u (last (accessOrder s)) < u k'"
    and "set (getKeys (set_cache cs config now k d customTtl sz s)) =
           insert k (set (getKeys s) - {last (accessOrder s)})"
    and "evictions (stats (set_cache cs config now k d customTtl sz s)) = evictions (stats s) + 1"
proof -
  have "0 < length (cache s)" using pos full by linarith
  then have ne: "accessOrder s \<noteq> []" by (rule accessOrder_nonempty [OF inv])
  have eq: "set (accessOrder s) = set (getKeys s)" using inv by (simp add: cache_inv_def)
  have room: "make_room config k s = evictLRU s" using new full by (simp add: make_room_def)
  show "last (accessOrder s) \<in> set (getKeys s)"
    using last_in_set [OF ne] eq by simp
  show "\<forall>k' \<in> set (getKeys s). k' \<noteq> last (accessOrder s) \<longrightarrow> u (last (accessOrder s)) < u k'"
    using last_is_least_recent [OF rec ne] eq by simp
  show "set (getKeys (set_cache cs config now k d customTtl sz s)) =
           insert k (set (getKeys s) - {last (accessOrder s)})"
    by (simp add: getKeys_set_cache room) (simp add: getKeys_def evictLRU_effect(1) [OF inv ne] delete_keys)
  show "evictions (stats (set_cache cs config now k d customTtl sz s)) = evictions (stats s) + 1"
    by (simp add: set_cache_effect(3) room evictLRU_effect(3) [OF inv ne])
qed

lemma set_cache_no_eviction:
  assumes "map_of (cache s) k \<noteq> None \<or> int (length (cache s)) < maxSize config"
  shows "set (getKeys (set_cache cs config now k d customTtl sz s)) = insert k (set (getKeys s))"
    and "evictions (stats (set_cache cs config now k d customTtl sz s)) = evictions (stats s)"
proof -
  have room: "make_room config k s = s" using assms by (auto simp: make_room_def)
  show "set (getKeys (set_cache cs config now k d customTtl sz s)) = insert k (set (getKeys s))"
    by (simp add: getKeys_set_cache room)
  show "evictions (stats (set_cache cs config now k d customTtl sz s)) = evictions (stats s)"
    by (simp add: set_cache_effect(3) room)
qed

text \<open>
  Claim C2 (the entry count never exceeds \<open>maxSize\<close>; a \<open>set\<close> of a new key at capacity
  evicts exactly the least recently used entry; a \<open>set\<close> of an existing key evicts
  nothing). For a cache configured with \<open>maxSize > 0\<close> and any run of events from the
  empty cache, with \<open>last_use\<close> the event number of each key's latest use by \<open>get\<close> or
  \<open>set\<close>: the map holds at most \<open>maxSize\<close> entries; a \<open>set\<close> of an absent key when the
  map holds \<open>maxSize\<close> entries removes one key, the live key whose last use is older than
  that of every other live key, adds the new key and counts one eviction; a \<open>set\<close> of an
  absent key below capacity, and a \<open>set\<close> of a present key, remove no key and count no
  eviction.
\<close>

theorem lru_bound_and_eviction:
  assumes "0 < maxSize config"
    and "cache_run cs config evs (initial, \<lambda>k. 0, 0) = (s, last_use, n)"
  shows "int (length (cache s)) \<le> maxSize config
       \<and> (map_of (cache s) k = None \<and> int (length (cache s)) = maxSize config \<longrightarrow>
            (\<exists>victim \<in> set (getKeys s).
                (\<forall>k' \<in> set (getKeys s). k' \<noteq> victim \<longrightarrow> last_use victim < last_use k')
              \<and> set (getKeys (set_cache cs config now k d customTtl sz s)) =
                  insert k (set (getKeys s) - {victim})
              \<and> evictions (stats (set_cache cs config now k d customTtl sz s)) =
                  evictions (stats s) + 1))
       \<and> (map_of (cache s) k = None \<and> int (length (cache s)) < maxSize config \<longrightarrow>
            set (getKeys (set_cache cs config now k d customTtl sz s)) = insert k (set (getKeys s))
          \<and> evictions (stats (set_cache cs config now k d customTtl sz s)) = evictions (stats s))
       \<and> (map_of (cache s) k \<noteq> None \<longrightarrow>
            set (getKeys (set_cache cs config now k d customTtl sz s)) = set (getKeys s)
          \<and> evictions (stats (set_cache cs config now k d customTtl sz s)) = evictions (stats s))"
proof -
  have inv: "cache_inv config s" and rec: "recency_inv last_use n s"
    using cache_run_inv [OF assms(1) initial_inv(1) [OF assms(1)] initial_inv(2) assms(2)] by simp_all
  have bound: "int (length (cache s)) \<le> maxSize config"
    using inv by (simp add: cache_inv_def)
  have full: "map_of (cache s) k = None \<and> int (length (cache s)) = maxSize config \<longrightarrow>
            (\<exists>victim \<in> set (getKeys s).
                (\<forall>k' \<in> set (getKeys s). k' \<noteq> victim \<longrightarrow> last_use victim < last_use k')
              \<and> set (getKeys (set_cache cs config now k d customTtl sz s)) =
                  insert k (set (getKeys s) - {victim})
              \<and> evictions (stats (set_cache cs config now k d customTtl sz s)) =
                  evictions (stats s) + 1)"
  proof (intro impI, elim conjE)
    assume new: "map_of (cache s) k = None" and at: "int (length (cache s)) = maxSize config"
    note c = set_cache_at_capacity [OF inv rec assms(1) new at]
    show "\<exists>victim \<in> set (getKeys s).
                (\<forall>k' \<in> set (getKeys s). k' \<noteq> victim \<longrightarrow> last_use victim < last_use k')
              \<and> set (getKeys (set_cache cs config now k d customTtl sz s)) =
                  insert k (set (getKeys s) - {victim})
              \<and> evictions (stats (set_cache cs config now k d customTtl sz s)) =
                  evictions (stats s) + 1"
      using c(1) c(2) c(3) [of cs now d customTtl sz] c(4) [of cs now d customTtl sz] by blast
  qed
  have below: "map_of (cache s) k = None \<and> int (length (cache s)) < maxSize config \<longrightarrow>
            set (getKeys (set_cache cs config now k d customTtl sz s)) = insert k (set (getKeys s))
          \<and> evictions (stats (set_cache cs config now k d customTtl sz s)) = evictions (stats s)"
    using set_cache_no_eviction(1) [of s k config cs now d customTtl sz]
      set_cache_no_eviction(2) [of s k config cs now d customTtl sz] by blast
  have upd: "map_of (cache s) k \<noteq> None \<longrightarrow>
            set (getKeys (set_cache cs config now k d customTtl sz s)) = set (getKeys s)
          \<and> evictions (stats (set_cache cs config now k d customTtl sz s)) = evictions (stats s)"
    using set_cache_no_eviction(1) [of s k config cs now d customTtl sz]
      set_cache_no_eviction(2) [of s k config cs now d customTtl sz] map_of_None_keys [of s k]
    by (auto simp: insert_absorb)
  show ?thesis using bound full below upd by blast
qed

theorem lru_bound_and_eviction_witness:
  "(let config = \<lparr>maxSize = 2, ttl = 60000, cleanupInterval = 10000\<rparr>;
        run = cache_run (\<lambda>d. 1024) config
                [SetEv ''a'' (Some (10::int)) None None 1, SetEv ''b'' (Some 20) None None 2,
                 GetEv ''a'' 3 3] (initial, \<lambda>k. 0, 0);
        s = fst run; last_use = fst (snd run);
        s' = set_cache (\<lambda>d. 1024) config 4 ''c'' (Some 30) None None s
    in 0 < maxSize config \<and> getKeys s = [''a'', ''b''] \<and> int (length (cache s)) = maxSize config
     \<and> last_use ''b'' < last_use ''a''
     \<and> set (getKeys s') = insert ''c'' (set (getKeys s) - {''b''})
     \<and> getKeys s' = [''a'', ''c'']
     \<and> evictions (stats s') = evictions (stats s) + 1)"
proof -
  define config where "config = \<lparr>maxSize = 2, ttl = 60000, cleanupInterval = 10000\<rparr>"
  define run where "run = cache_run (\<lambda>d. 1024) config
                [SetEv ''a'' (Some (10::int)) None None 1, SetEv ''b'' (Some 20) None None 2,
                 GetEv ''a'' 3 3] (initial, \<lambda>k. 0, 0)"
  define st :: "(key \<times> int CacheEntry) list \<Rightarrow> key list \<Rightarrow> int \<Rightarrow> int \<Rightarrow> int cstate"
    where "st c ao h ev =
      \<lparr>cache = c, accessOrder = ao, pendingFetches = [],
       stats = \<lparr>hits = h, misses = 0, size_stats = int (length c),
                totalSizeBytes = 1024 * int (length c),
                averageResponseTime = 0, evictions = ev, staleEntriesCleaned = 0\<rparr>,
       totalResponseTime = 0, totalRequests = 0, promises = []\<rparr>" for c ao h ev
  define en :: "int \<Rightarrow> int \<Rightarrow> int \<Rightarrow> int CacheEntry"
    where "en v t a = \<lparr>data = Some v, expiresAt = t + 60000, lastAccessed = a, size_entry = 1024\<rparr>"
    for v t a
  have s0: "initial = st [] [] 0 0"
    by (simp add: initial_def st_def)
  have s1: "set_cache (\<lambda>d. 1024) config 1 ''a'' (Some 10) None None (st [] [] 0 0) =
      st [(''a'', en 10 1 1)] [''a''] 0 0"
    by (simp add: cache_defs config_def st_def en_def Let_def)
  have s2: "set_cache (\<lambda>d. 1024) config 2 ''b'' (Some 20) None None (st [(''a'', en 10 1 1)] [''a''] 0 0) =
      st [(''a'', en 10 1 1), (''b'', en 20 2 2)] [''b'', ''a''] 0 0"
    by (simp add: cache_defs config_def st_def en_def Let_def)
  have s3: "get 3 3 ''a'' (st [(''a'', en 10 1 1), (''b'', en 20 2 2)] [''b'', ''a''] 0 0) =
      (Some 10, st [(''a'', en 10 1 3), (''b'', en 20 2 2)] [''a'', ''b''] 1 0)"
    by (simp add: cache_defs config_def st_def en_def Let_def)
  have live: "live_at 3 ''a'' (st [(''a'', en 10 1 1), (''b'', en 20 2 2)] [''b'', ''a''] 0 0)"
    by (simp add: live_at_def st_def en_def)
  have s4: "set_cache (\<lambda>d. 1024) config 4 ''c'' (Some 30) None None
        (st [(''a'', en 10 1 3), (''b'', en 20 2 2)] [''a'', ''b''] 1 0) =
      st [(''a'', en 10 1 3), (''c'', en 30 4 4)] [''c'', ''a''] 1 1"
    by (simp add: cache_defs config_def st_def en_def Let_def)
  have r: "fst run = st [(''a'', en 10 1 3), (''b'', en 20 2 2)] [''a'', ''b''] 1 0"
    "fst (snd run) ''b'' < fst (snd run) ''a''"
    unfolding run_def by (simp_all add: s0 s1 s2 s3 live)
  have p: "cache_run (\<lambda>d. 1024) config
                [SetEv ''a'' (Some (10::int)) None None 1, SetEv ''b'' (Some 20) None None 2,
                 GetEv ''a'' 3 3] (initial, \<lambda>k. 0, 0) = (fst run, fst (snd run), snd (snd run))"
    by (simp add: run_def)
  have pos: "0 < maxSize config" by (simp add: config_def)
  note inst = lru_bound_and_eviction [OF pos p, of "''c''" 4 "Some 30" None None]
  show ?thesis
    unfolding Let_def config_def [symmetric] run_def [symmetric]
    using inst by (simp add: r s4) (auto simp: st_def getKeys_def config_def)
qed

subsection \<open>Single flight\<close>

















section \<open>Properties of the scheduler\<close>

lemma enqueue_while_processing:
  "isProcessing s \<Longrightarrow> enqueue m item s = enqueue_insert item s"
  by (simp add: enqueue_def processQueue_def enqueue_insert_def)

lemma fold_enqueue_insert_fields:
  "activeWorkers (fold enqueue_insert items s) = activeWorkers s"
  "started (fold enqueue_insert items s) = started s"
  "isProcessing (fold enqueue_insert items s) = isProcessing s"
  by (induction items arbitrary: s) (simp_all add: enqueue_insert_def)

lemma mset_insert_item: "mset (insert_item item q) = add_mset item (mset q)"
  by (induction q) simp_all

lemma mset_fold_enqueue_insert:
  "mset (queue (fold enqueue_insert items s)) = mset items + mset (queue s)"
  by (induction items arbitrary: s) (simp_all add: enqueue_insert_def mset_insert_item)

text \<open>The counter\<close>

lemma dispatch_loop_active:
  "activeWorkers s \<le> m \<Longrightarrow>
     activeWorkers s \<le> activeWorkers (dispatch_loop m s) \<and> activeWorkers (dispatch_loop m s) \<le> m"
proof (induction m s rule: dispatch_loop.induct)
  case (1 m s)
  show ?case
  proof (cases "queue s \<noteq> [] \<and> activeWorkers s < m")
    case False
    then show ?thesis using "1.prems" by (subst (1 2) dispatch_loop.simps) auto
  next
    case True
    let ?s3 = "fold enqueue_insert (task_enqueues (hd (queue s)))
                 (s\<lparr>queue := tl (queue s), activeWorkers := activeWorkers s + 1,
                     started := started s @ [hd (queue s)]\<rparr>)"
    have a3: "activeWorkers ?s3 = activeWorkers s + 1"
      by (simp add: fold_enqueue_insert_fields)
    show ?thesis
    proof (cases "task_throws (hd (queue s))")
      case True
      then show ?thesis
        using \<open>queue s \<noteq> [] \<and> activeWorkers s < m\<close> a3
        by (subst (1 2) dispatch_loop.simps) (simp add: Let_def)
    next
      case False
      have "activeWorkers ?s3 \<le> activeWorkers (dispatch_loop m ?s3) \<and> activeWorkers (dispatch_loop m ?s3) \<le> m"
        using "1.IH" [OF True refl refl refl refl False] True a3 by simp
      then show ?thesis
        using True False a3 by (subst (1 2) dispatch_loop.simps) (simp add: Let_def)
    qed
  qed
qed

lemma dispatch_loop_step:
  "queue s \<noteq> [] \<Longrightarrow> activeWorkers s < m \<Longrightarrow>
     dispatch_loop m s =
       (if task_throws (hd (queue s)) then dispatch_one s else dispatch_loop m (dispatch_one s))"
  by (subst dispatch_loop.simps) (simp add: dispatch_one_def Let_def)

lemma dispatch_loop_stop:
  "\<not> (queue s \<noteq> [] \<and> activeWorkers s < m) \<Longrightarrow> dispatch_loop m s = s\<lparr>isProcessing := False\<rparr>"
  by (subst dispatch_loop.simps) auto

lemma dispatch_one_fields:
  "activeWorkers (dispatch_one s) = activeWorkers s + 1"
  "started (dispatch_one s) = started s @ [hd (queue s)]"
  "isProcessing (dispatch_one s) = isProcessing s"
  "mset (queue (dispatch_one s)) = mset (task_enqueues (hd (queue s))) + mset (tl (queue s))"
  by (simp_all add: dispatch_one_def fold_enqueue_insert_fields mset_fold_enqueue_insert)

lemma dispatch_loop_invariant_aux:
  "\<forall>t. P t \<and> queue t \<noteq> [] \<and> activeWorkers t < m \<longrightarrow> P (dispatch_one t) \<Longrightarrow>
   \<forall>t. P t \<longrightarrow> P (t\<lparr>isProcessing := False\<rparr>) \<Longrightarrow> P s \<Longrightarrow> P (dispatch_loop m s)"
proof (induction m s rule: dispatch_loop.induct)
  case (1 m s)
  show ?case
  proof (cases "queue s \<noteq> [] \<and> activeWorkers s < m")
    case False
    then show ?thesis using "1.prems"(2,3) by (simp add: dispatch_loop_stop)
  next
    case True
    have one: "P (dispatch_one s)" using "1.prems"(1,3) True by blast
    show ?thesis
    proof (cases "task_throws (hd (queue s))")
      case True
      then show ?thesis using one \<open>queue s \<noteq> [] \<and> activeWorkers s < m\<close> by (simp add: dispatch_loop_step)
    next
      case False
      have "P (dispatch_loop m (dispatch_one s))"
        using "1.IH" [OF True refl refl refl refl False "1.prems"(1,2)] one
        by (simp add: dispatch_one_def)
      then show ?thesis using True False by (simp add: dispatch_loop_step)
    qed
  qed
qed

lemma dispatch_loop_invariant:
  assumes "P s"
    and step: "\<And>t. P t \<Longrightarrow> queue t \<noteq> [] \<Longrightarrow> activeWorkers t < m \<Longrightarrow> P (dispatch_one t)"
    and stop: "\<And>t. P t \<Longrightarrow> P (t\<lparr>isProcessing := False\<rparr>)"
  shows "P (dispatch_loop m s)"
  by (rule dispatch_loop_invariant_aux) (use assms in blast)+

text \<open>Order of the pending sequence\<close>

lemma insert_item_takeWhile:
  "insert_item item q =
     takeWhile (\<lambda>x. \<not> priority x < priority item) q @ item # dropWhile (\<lambda>x. \<not> priority x < priority item) q"
  by (induction q) simp_all

lemma set_insert_item: "set (insert_item item q) = insert item (set q)"
  by (induction q) auto

lemma pending_sorted_insert_item:
  "pending_sorted q \<Longrightarrow> pending_sorted (insert_item item q)"
  unfolding pending_sorted_def
  by (induction q) (auto simp: set_insert_item)

lemma insert_item_filter:
  "pending_sorted q \<Longrightarrow>
     insert_item item q =
       filter (\<lambda>x. priority item \<le> priority x) q @ item # filter (\<lambda>x. priority x < priority item) q"
  unfolding pending_sorted_def
proof (induction q)
  case Nil
  then show ?case by simp
next
  case (Cons x q)
  show ?case
  proof (cases "priority x < priority item")
    case True
    then have "\<forall>y \<in> set q. priority y < priority item"
      using Cons.prems by auto
    then have "filter (\<lambda>x. priority item \<le> priority x) q = []"
      and "filter (\<lambda>x. priority x < priority item) q = q"
      by (auto simp: filter_empty_conv filter_id_conv)
    then show ?thesis using True by simp
  next
    case False
    then show ?thesis using Cons by simp
  qed
qed

lemma pending_sorted_fold:
  "pending_sorted (queue s) \<Longrightarrow> pending_sorted (queue (fold enqueue_insert items s))"
  by (induction items arbitrary: s) (simp_all add: enqueue_insert_def pending_sorted_insert_item)

lemma pending_sorted_tl: "pending_sorted q \<Longrightarrow> pending_sorted (tl q)"
  by (cases q) (simp_all add: pending_sorted_def)

lemma pending_sorted_dispatch_one:
  "pending_sorted (queue s) \<Longrightarrow> pending_sorted (queue (dispatch_one s))"
  unfolding dispatch_one_def by (rule pending_sorted_fold) (simp add: pending_sorted_tl)

lemma pending_sorted_processQueue:
  "pending_sorted (queue s) \<Longrightarrow> pending_sorted (queue (processQueue m s))"
  unfolding processQueue_def
  by (auto intro!: dispatch_loop_invariant [where P = "\<lambda>t. pending_sorted (queue t)"]
      pending_sorted_dispatch_one)

lemma pending_sorted_step:
  "pending_sorted (queue s) \<Longrightarrow> pending_sorted (queue (queue_step m ev s))"
  by (cases ev)
    (auto simp: enqueue_def enqueue_insert_def task_outcome_def task_finally_def queue_clear_def Let_def
      pending_sorted_def [of "[]"]
      intro!: pending_sorted_processQueue pending_sorted_insert_item)

lemma pending_sorted_run:
  "pending_sorted (queue s) \<Longrightarrow> pending_sorted (queue (queue_run m evs s))"
  unfolding queue_run_def by (induction evs arbitrary: s) (simp_all add: pending_sorted_step)

text \<open>Bound on the counter\<close>

lemma processQueue_active:
  "activeWorkers s \<le> m \<Longrightarrow> activeWorkers (processQueue m s) \<le> m"
  using dispatch_loop_active [of "s\<lparr>isProcessing := True\<rparr>" m] by (simp add: processQueue_def)

lemma queue_step_active:
  "activeWorkers s \<le> m \<Longrightarrow> activeWorkers (queue_step m ev s) \<le> m"
  by (cases ev)
    (auto simp: enqueue_def enqueue_insert_def task_outcome_def task_finally_def queue_clear_def Let_def
      intro!: processQueue_active)

lemma queue_run_active:
  "activeWorkers s \<le> m \<Longrightarrow> activeWorkers (queue_run m evs s) \<le> m"
  unfolding queue_run_def by (induction evs arbitrary: s) (simp_all add: queue_step_active)

text \<open>Every dispatch answers one call of enqueue\<close>

lemma accounted_dispatch_one:
  assumes "accounted E s" and "queue s \<noteq> []"
  shows "accounted E (dispatch_one s)"
proof -
  have q: "mset (queue s) = add_mset (hd (queue s)) (mset (tl (queue s)))"
    using assms(2) by (cases "queue s") simp_all
  have "mset (started (dispatch_one s)) + mset (queue (dispatch_one s)) =
      (mset (started s) + mset (queue s)) + mset (task_enqueues (hd (queue s)))"
    by (simp add: dispatch_one_fields q)
  moreover have "enqueued_by_tasks (started (dispatch_one s)) =
      enqueued_by_tasks (started s) + mset (task_enqueues (hd (queue s)))"
    by (simp add: dispatch_one_fields enqueued_by_tasks_def)
  ultimately show ?thesis
    using assms(1) by (simp add: accounted_def add.assoc [symmetric])
qed

lemma accounted_processQueue:
  assumes "accounted E s"
  shows "accounted E (processQueue m s)"
proof (cases "isProcessing s \<or> activeWorkers s \<ge> m")
  case True
  then show ?thesis using assms by (simp add: processQueue_def)
next
  case False
  have "accounted E (dispatch_loop m (s\<lparr>isProcessing := True\<rparr>))"
  proof (rule dispatch_loop_invariant [where P = "accounted E"])
    show "accounted E (s\<lparr>isProcessing := True\<rparr>)"
      using assms by (simp add: accounted_def)
  next
    fix t assume "accounted E t" and "queue t \<noteq> []"
    then show "accounted E (dispatch_one t)" by (rule accounted_dispatch_one)
  next
    fix t assume "accounted E t"
    then show "accounted E (t\<lparr>isProcessing := False\<rparr>)" by (simp add: accounted_def)
  qed
  then show ?thesis using False by (simp add: processQueue_def)
qed

lemma accounted_step:
  assumes "accounted E s"
  shows "accounted (E + enqueued_by_callers [ev]) (queue_step m ev s)"
proof (cases ev)
  case (Enqueue item)
  have "accounted (add_mset item E) (enqueue_insert item s)"
    using assms by (simp add: accounted_def enqueue_insert_def mset_insert_item)
  then show ?thesis
    using Enqueue by (simp add: enqueue_def enqueued_by_callers_def accounted_processQueue)
next
  case (Outcome ok)
  then show ?thesis
    using assms by (simp add: task_outcome_def enqueued_by_callers_def accounted_def)
next
  case Finally
  have "accounted E (s\<lparr>activeWorkers := activeWorkers s - 1, isProcessing := False\<rparr>)"
    using assms by (simp add: accounted_def)
  then show ?thesis
    using Finally by (simp add: task_finally_def enqueued_by_callers_def Let_def accounted_processQueue)
next
  case ClearQueue
  have "mset (started s) \<subseteq># mset (started s) + mset (queue s)" by simp
  also have "\<dots> \<subseteq># E + enqueued_by_tasks (started s)"
    using assms by (simp add: accounted_def)
  finally have "accounted E (queue_clear s)"
    by (simp add: accounted_def queue_clear_def)
  then show ?thesis using ClearQueue by (simp add: enqueued_by_callers_def)
qed

lemma enqueued_by_callers_Cons:
  "enqueued_by_callers (ev # evs) = enqueued_by_callers [ev] + enqueued_by_callers evs"
  by (simp add: enqueued_by_callers_def)

lemma accounted_run:
  "accounted E s \<Longrightarrow> accounted (E + enqueued_by_callers evs) (queue_run m evs s)"
proof (induction evs arbitrary: s E)
  case Nil
  then show ?case by (simp add: queue_run_def enqueued_by_callers_def)
next
  case (Cons ev evs)
  have "accounted (E + enqueued_by_callers [ev] + enqueued_by_callers evs)
      (queue_run m evs (queue_step m ev s))"
    by (rule Cons.IH [OF accounted_step [OF Cons.prems]])
  then show ?case
    by (simp add: queue_run_def enqueued_by_callers_Cons [of ev evs] add.assoc)
qed

text \<open>
  Claim C4 (at most \<open>maxConcurrent\<close> active operations; no task dispatched twice). For
  \<open>maxConcurrent \<ge> 0\<close> and every sequence of submissions, completions (the handler
  that counts the outcome and the one that frees the slot, as separate steps) and clears
  from the initial queue: the active count is at most \<open>maxConcurrent\<close> after each event; the
  dispatch loop, from any state within the bound, never lowers the count and ends
  within the bound, so the count is within the bound at each of its iterations; and the
  tasks started so far together with the pending ones are, with multiplicity, among the
  tasks enqueued, so no call of \<open>enqueue\<close> is answered by two dispatches.
\<close>

theorem bounded_concurrency:
  assumes "0 \<le> maxConcurrent" and "s = queue_run maxConcurrent evs queue_initial"
  shows "activeWorkers s \<le> maxConcurrent
       \<and> (\<forall>t. activeWorkers t \<le> maxConcurrent \<longrightarrow>
              activeWorkers t \<le> activeWorkers (dispatch_loop maxConcurrent t)
            \<and> activeWorkers (dispatch_loop maxConcurrent t) \<le> maxConcurrent)
       \<and> mset (started s) + mset (queue s) \<subseteq># enqueued_by_callers evs + enqueued_by_tasks (started s)"
proof -
  have "activeWorkers queue_initial \<le> maxConcurrent"
    using assms(1) by (simp add: queue_initial_def)
  then have a: "activeWorkers s \<le> maxConcurrent"
    unfolding assms(2) by (rule queue_run_active)
  have "accounted {#} queue_initial"
    by (simp add: accounted_def queue_initial_def)
  then have "accounted ({#} + enqueued_by_callers evs) s"
    unfolding assms(2) by (rule accounted_run)
  then have c: "mset (started s) + mset (queue s) \<subseteq># enqueued_by_callers evs + enqueued_by_tasks (started s)"
    by (simp add: accounted_def)
  show ?thesis
    using a c dispatch_loop_active by blast
qed

lemma queue_run_Cons: "queue_run m (ev # evs) s = queue_run m evs (queue_step m ev s)"
  by (simp add: queue_run_def)

lemma queue_run_Nil: "queue_run m [] s = s"
  by (simp add: queue_run_def)

lemmas queue_eval = queue_run_Cons queue_run_Nil enqueue_def enqueue_insert_def processQueue_def
  task_outcome_def task_finally_def queue_clear_def dispatch_loop.simps Let_def

theorem bounded_concurrency_witness:
  "(let evs = [Enqueue (QueueItem ''a'' 1 False [QueueItem ''n'' 9 False []]),
               Enqueue (QueueItem ''b'' 5 True []), Enqueue (QueueItem ''c'' 3 False []),
               Enqueue (QueueItem ''d'' 5 False []), Outcome True, Finally];
        s = queue_run 2 evs queue_initial
    in (0::int) \<le> 2 \<and> activeWorkers s = 2 \<and> activeWorkers s \<le> 2
     \<and> started s = [QueueItem ''a'' 1 False [QueueItem ''n'' 9 False []], QueueItem ''n'' 9 False [],
                     QueueItem ''b'' 5 True []]
     \<and> queue s = [QueueItem ''d'' 5 False [], QueueItem ''c'' 3 False []]
     \<and> mset (started s) + mset (queue s) \<subseteq># enqueued_by_callers evs + enqueued_by_tasks (started s))"
proof -
  define evs where "evs = [Enqueue (QueueItem ''a'' 1 False [QueueItem ''n'' 9 False []]),
               Enqueue (QueueItem ''b'' 5 True []), Enqueue (QueueItem ''c'' 3 False []),
               Enqueue (QueueItem ''d'' 5 False []), Outcome True, Finally]"
  define s where "s = queue_run 2 evs queue_initial"
  have s: "s = \<lparr>queue = [QueueItem ''d'' 5 False [], QueueItem ''c'' 3 False []],
      isProcessing = True, activeWorkers = 2, completedTasks = 1, failedTasks = 0,
      started = [QueueItem ''a'' 1 False [QueueItem ''n'' 9 False []], QueueItem ''n'' 9 False [],
                 QueueItem ''b'' 5 True []]\<rparr>"
    unfolding s_def evs_def by (simp add: queue_eval queue_initial_def)
  show ?thesis
    unfolding Let_def evs_def [symmetric] s_def [symmetric]
    using bounded_concurrency [of 2 s evs] by (simp add: s_def [symmetric]) (simp add: s)
qed

text \<open>Dispatch takes the front, in the order of the pending sequence\<close>

lemma dispatch_loop_plain:
  "\<forall>x \<in> set (queue t). task_enqueues x = [] \<and> \<not> task_throws x \<Longrightarrow>
     started (dispatch_loop m t) = started t @ take (nat (m - activeWorkers t)) (queue t)
   \<and> queue (dispatch_loop m t) = drop (nat (m - activeWorkers t)) (queue t)"
proof (induction m t rule: dispatch_loop.induct)
  case (1 m s)
  show ?case
  proof (cases "queue s \<noteq> [] \<and> activeWorkers s < m")
    case False
    then show ?thesis by (auto simp: dispatch_loop_stop)
  next
    case True
    then obtain x rest where q: "queue s = x # rest" by (cases "queue s") auto
    have plain: "task_enqueues x = []" "\<not> task_throws x"
      using "1.prems" q by simp_all
    let ?u = "s\<lparr>queue := rest, activeWorkers := activeWorkers s + 1, started := started s @ [x]\<rparr>"
    have one: "dispatch_one s = ?u"
      by (simp add: dispatch_one_def q plain)
    have step: "dispatch_loop m s = dispatch_loop m ?u"
      using True plain q one by (simp add: dispatch_loop_step)
    have n: "nat (m - activeWorkers s) = Suc (nat (m - (activeWorkers s + 1)))"
      using True by arith
    have IH: "started (dispatch_loop m ?u) = started ?u @ take (nat (m - activeWorkers ?u)) (queue ?u)
        \<and> queue (dispatch_loop m ?u) = drop (nat (m - activeWorkers ?u)) (queue ?u)"
      using "1.IH" [OF True refl refl refl refl] plain q "1.prems" by simp
    show ?thesis
      unfolding step using IH by (simp add: q n)
  qed
qed

lemma insert_item_after:
  "\<forall>q \<in> set pre. \<not> priority q < priority z \<Longrightarrow> insert_item z (pre @ post) = pre @ insert_item z post"
  by (induction pre) simp_all

lemma insert_item_around:
  "\<exists>a' b'. insert_item z (a @ x # b) = a' @ x # b' \<and> set a' \<subseteq> insert z (set a)"
proof (induction a)
  case Nil
  show ?case
  proof (cases "priority x < priority z")
    case True
    then have "insert_item z ([] @ x # b) = [z] @ x # b" by simp
    then show ?thesis by (metis list.set(1,2) subset_refl)
  next
    case False
    then have "insert_item z ([] @ x # b) = [] @ x # insert_item z b" by simp
    then show ?thesis by (metis empty_set empty_subsetI)
  qed
next
  case (Cons q a)
  show ?case
  proof (cases "priority q < priority z")
    case True
    then have "insert_item z ((q # a) @ x # b) = (z # q # a) @ x # b" by simp
    moreover have "set (z # q # a) \<subseteq> insert z (set (q # a))" by auto
    ultimately show ?thesis by blast
  next
    case False
    obtain a' b' where i: "insert_item z (a @ x # b) = a' @ x # b'" and sub: "set a' \<subseteq> insert z (set a)"
      using Cons.IH by blast
    have "insert_item z ((q # a) @ x # b) = (q # a') @ x # b'"
      using False i by simp
    moreover have "set (q # a') \<subseteq> insert z (set (q # a))" using sub by auto
    ultimately show ?thesis by blast
  qed
qed

lemma order_inv_insert:
  assumes "order_inv base x y t" and "x \<noteq> y" and "priority y \<le> priority x"
  shows "order_inv base x y (enqueue_insert z t)"
proof -
  from assms(1) obtain later where sorted: "pending_sorted (queue t)" and st: "started t = base @ later"
    and d: "(\<exists>a b. queue t = a @ x # b \<and> y \<notin> set a) \<and> y \<notin> set later \<or>
         x \<in> set (takeWhile (\<lambda>z. z \<noteq> y) later)"
    by (auto simp: order_inv_def)
  have sorted': "pending_sorted (queue (enqueue_insert z t))"
    using sorted by (simp add: enqueue_insert_def pending_sorted_insert_item)
  have st': "started (enqueue_insert z t) = base @ later"
    using st by (simp add: enqueue_insert_def)
  from d show ?thesis
  proof
    assume "x \<in> set (takeWhile (\<lambda>z. z \<noteq> y) later)"
    then show ?thesis using sorted' st' by (auto simp: order_inv_def)
  next
    assume p: "(\<exists>a b. queue t = a @ x # b \<and> y \<notin> set a) \<and> y \<notin> set later"
    then obtain a b where q: "queue t = a @ x # b" and ya: "y \<notin> set a" by blast
    have "\<exists>a' b'. insert_item z (queue t) = a' @ x # b' \<and> y \<notin> set a'"
    proof (cases "z = y")
      case True
      have "\<forall>q \<in> set (a @ [x]). \<not> priority q < priority z"
        using sorted q assms(3) True by (auto simp: pending_sorted_def sorted_wrt_append)
      then have "insert_item z ((a @ [x]) @ b) = (a @ [x]) @ insert_item z b"
        by (rule insert_item_after)
      then show ?thesis using q ya by auto
    next
      case False
      obtain a' b' where "insert_item z (a @ x # b) = a' @ x # b'" and "set a' \<subseteq> insert z (set a)"
        using insert_item_around by blast
      then show ?thesis using q ya False by auto
    qed
    then show ?thesis
      using sorted' st' p by (auto simp: order_inv_def enqueue_insert_def)
  qed
qed

lemma order_inv_fold:
  assumes "x \<noteq> y" and "priority y \<le> priority x"
  shows "order_inv base x y t \<Longrightarrow> order_inv base x y (fold enqueue_insert items t)"
  by (induction items arbitrary: t) (simp_all add: order_inv_insert [OF _ assms])

lemma order_inv_dispatch_one:
  assumes inv: "order_inv base x y t" and ne: "queue t \<noteq> []" and xy: "x \<noteq> y" "priority y \<le> priority x"
  shows "order_inv base x y (dispatch_one t)"
proof -
  obtain h rest where q: "queue t = h # rest" using ne by (cases "queue t") auto
  let ?u = "t\<lparr>queue := tl (queue t), activeWorkers := activeWorkers t + 1,
              started := started t @ [hd (queue t)]\<rparr>"
  from inv obtain later where sorted: "pending_sorted (queue t)" and st: "started t = base @ later"
    and d: "(\<exists>a b. queue t = a @ x # b \<and> y \<notin> set a) \<and> y \<notin> set later \<or>
         x \<in> set (takeWhile (\<lambda>z. z \<noteq> y) later)"
    by (auto simp: order_inv_def)
  have sorted': "pending_sorted (queue ?u)" using sorted by (simp add: pending_sorted_tl)
  have st': "started ?u = base @ (later @ [h])" using st q by simp
  have "(\<exists>a b. queue ?u = a @ x # b \<and> y \<notin> set a) \<and> y \<notin> set (later @ [h]) \<or>
         x \<in> set (takeWhile (\<lambda>z. z \<noteq> y) (later @ [h]))"
    using d
  proof
    assume "x \<in> set (takeWhile (\<lambda>z. z \<noteq> y) later)"
    then have "x \<in> set (takeWhile (\<lambda>z. z \<noteq> y) (later @ [h]))"
      by (metis (no_types, lifting) UnI1 set_append takeWhile_append1 takeWhile_append2 set_takeWhileD takeWhile_eq_all_conv)
    then show ?thesis by blast
  next
    assume p: "(\<exists>a b. queue t = a @ x # b \<and> y \<notin> set a) \<and> y \<notin> set later"
    then obtain a b where qa: "queue t = a @ x # b" and ya: "y \<notin> set a" and yl: "y \<notin> set later" by blast
    show ?thesis
    proof (cases a)
      case Nil
      then have "h = x" using qa q by simp
      moreover have "takeWhile (\<lambda>z. z \<noteq> y) (later @ [x]) = later @ [x]"
        using yl xy(1) by (auto simp: takeWhile_eq_all_conv)
      ultimately show ?thesis by simp
    next
      case (Cons h' a')
      then have "h = h'" and "rest = a' @ x # b" using qa q by simp_all
      then show ?thesis using ya yl Cons q by auto
    qed
  qed
  then have "order_inv base x y ?u"
    using sorted' st' unfolding order_inv_def by blast
  then show ?thesis
    unfolding dispatch_one_def by (rule order_inv_fold [OF xy])
qed

lemma order_inv_fields:
  "order_inv base x y (t\<lparr>isProcessing := f\<rparr>) = order_inv base x y t"
  "order_inv base x y (t\<lparr>activeWorkers := n\<rparr>) = order_inv base x y t"
  "order_inv base x y (t\<lparr>completedTasks := c\<rparr>) = order_inv base x y t"
  "order_inv base x y (t\<lparr>failedTasks := c\<rparr>) = order_inv base x y t"
  by (simp_all add: order_inv_def)

lemma order_inv_processQueue:
  assumes "order_inv base x y t" and xy: "x \<noteq> y" "priority y \<le> priority x"
  shows "order_inv base x y (processQueue m t)"
proof (cases "isProcessing t \<or> activeWorkers t \<ge> m")
  case True
  then show ?thesis using assms(1) by (simp add: processQueue_def)
next
  case False
  have "order_inv base x y (dispatch_loop m (t\<lparr>isProcessing := True\<rparr>))"
  proof (rule dispatch_loop_invariant [where P = "order_inv base x y"])
    show "order_inv base x y (t\<lparr>isProcessing := True\<rparr>)"
      using assms(1) by (simp add: order_inv_fields)
  next
    fix u assume "order_inv base x y u" and "queue u \<noteq> []"
    then show "order_inv base x y (dispatch_one u)" using xy by (rule order_inv_dispatch_one)
  next
    fix u :: qstate assume "order_inv base x y u"
    then show "order_inv base x y (u\<lparr>isProcessing := False\<rparr>)" by (simp add: order_inv_fields)
  qed
  then show ?thesis using False by (simp add: processQueue_def)
qed

lemma order_inv_step:
  assumes "order_inv base x y t" and xy: "x \<noteq> y" "priority y \<le> priority x" and "ev \<noteq> ClearQueue"
  shows "order_inv base x y (queue_step m ev t)"
proof (cases ev)
  case (Enqueue item)
  then show ?thesis
    by (simp add: enqueue_def order_inv_processQueue [OF order_inv_insert [OF assms(1) xy] xy])
next
  case (Outcome ok)
  then show ?thesis using assms(1) by (simp add: task_outcome_def order_inv_fields)
next
  case Finally
  have "order_inv base x y (t\<lparr>activeWorkers := activeWorkers t - 1, isProcessing := False\<rparr>)"
    using assms(1) by (simp add: order_inv_def)
  then show ?thesis
    using Finally by (simp add: task_finally_def Let_def order_inv_processQueue [OF _ xy])
next
  case ClearQueue
  then show ?thesis using assms(4) by simp
qed

lemma order_inv_run:
  assumes xy: "x \<noteq> y" "priority y \<le> priority x"
  shows "order_inv base x y t \<Longrightarrow> ClearQueue \<notin> set evs \<Longrightarrow> order_inv base x y (queue_run m evs t)"
proof (induction evs arbitrary: t)
  case Nil
  then show ?case by (simp add: queue_run_Nil)
next
  case (Cons ev evs)
  have "order_inv base x y (queue_step m ev t)"
    using Cons.prems by (intro order_inv_step [OF _ xy]) auto
  then show ?case
    using Cons.IH Cons.prems(2) by (simp add: queue_run_Cons)
qed

lemma dispatch_order:
  assumes sorted: "pending_sorted (queue s)" and q: "queue s = a @ x # b" and ya: "y \<notin> set a"
    and xy: "x \<noteq> y" "priority y \<le> priority x" and nc: "ClearQueue \<notin> set evs"
  shows "\<exists>later. started (queue_run m evs s) = started s @ later \<and>
           (y \<in> set later \<longrightarrow> x \<in> set (takeWhile (\<lambda>z. z \<noteq> y) later))"
proof -
  have "order_inv (started s) x y s"
    using sorted q ya by (auto simp: order_inv_def)
  then have "order_inv (started s) x y (queue_run m evs s)"
    using nc by (rule order_inv_run [OF xy])
  then show ?thesis by (auto simp: order_inv_def)
qed

lemma higher_priority_first:
  assumes sorted: "pending_sorted (queue s)" and x: "x \<in> set (queue s)"
    and lower: "priority y < priority x" and nc: "ClearQueue \<notin> set evs"
  shows "\<exists>later. started (queue_run m evs s) = started s @ later \<and>
           (y \<in> set later \<longrightarrow> x \<in> set (takeWhile (\<lambda>z. z \<noteq> y) later))"
proof -
  obtain a b where q: "queue s = a @ x # b"
    using x by (auto simp: in_set_conv_decomp)
  have "\<forall>z \<in> set a. priority x \<le> priority z"
    using sorted q by (auto simp: pending_sorted_def sorted_wrt_append)
  then have ya: "y \<notin> set a" using lower by auto
  have "x \<noteq> y" using lower by auto
  then show ?thesis
    using dispatch_order [OF sorted q ya _ _ nc] lower by simp
qed

text \<open>
  Claim C5 (priority order, FIFO among equals, dispatch from the front). In every state
  \<open>s\<close> reached from the initial queue:

  \<^item> the pending sequence is sorted by descending priority;
  \<^item> a new item goes immediately before the first pending item of strictly lower
    priority and to the back when there is none, that is, after all pending items of
    the same or a higher priority and before all others;
  \<^item> the front item has the highest priority of the pending items.

  The dispatch loop, from any state: while a task is pending and a slot is free it
  starts the front task, which leaves the pending sequence, and goes on with the rest
  (after the insertions that the task made while it was started, and unless the task
  threw); otherwise it starts nothing and leaves the sequence as it is. With tasks that
  neither enqueue nor throw it starts the first \<open>maxConcurrent - activeWorkers\<close> pending
  tasks in their order and leaves the others.

  Dispatch order over any further events without \<open>clear\<close>: a task \<open>x\<close> that is pending
  in \<open>s\<close> is started before every task \<open>y\<close> of the same or a lower priority that is
  not ahead of \<open>x\<close> in the sequence (\<open>y\<close> is behind \<open>x\<close>, or is submitted later); in
  particular a pending task is started before every task of strictly lower priority.
\<close>

theorem priority_order:
  assumes "s = queue_run maxConcurrent evs queue_initial"
  shows "pending_sorted (queue s)
       \<and> queue (enqueue_insert item s) =
           takeWhile (\<lambda>x. \<not> priority x < priority item) (queue s) @ item #
           dropWhile (\<lambda>x. \<not> priority x < priority item) (queue s)
       \<and> queue (enqueue_insert item s) =
           filter (\<lambda>x. priority item \<le> priority x) (queue s) @ item #
           filter (\<lambda>x. priority x < priority item) (queue s)
       \<and> (\<forall>first rest. queue s = first # rest \<longrightarrow> (\<forall>x \<in> set rest. priority x \<le> priority first))
       \<and> (\<forall>t first rest. queue t = first # rest \<and> activeWorkers t < maxConcurrent \<longrightarrow>
             dispatch_loop maxConcurrent t =
               (if task_throws first
                then fold enqueue_insert (task_enqueues first)
                       (t\<lparr>queue := rest, activeWorkers := activeWorkers t + 1,
                           started := started t @ [first]\<rparr>)
                else dispatch_loop maxConcurrent
                       (fold enqueue_insert (task_enqueues first)
                          (t\<lparr>queue := rest, activeWorkers := activeWorkers t + 1,
                              started := started t @ [first]\<rparr>))))
       \<and> (\<forall>t. queue t = [] \<or> maxConcurrent \<le> activeWorkers t \<longrightarrow>
             started (dispatch_loop maxConcurrent t) = started t \<and>
             queue (dispatch_loop maxConcurrent t) = queue t)
       \<and> (\<forall>t. (\<forall>x \<in> set (queue t). task_enqueues x = [] \<and> \<not> task_throws x) \<longrightarrow>
             started (dispatch_loop maxConcurrent t) =
               started t @ take (nat (maxConcurrent - activeWorkers t)) (queue t) \<and>
             queue (dispatch_loop maxConcurrent t) =
               drop (nat (maxConcurrent - activeWorkers t)) (queue t))
       \<and> (\<forall>x y a b cont.
             queue s = a @ x # b \<and> y \<notin> set a \<and> x \<noteq> y \<and> priority y \<le> priority x \<and>
             ClearQueue \<notin> set cont \<longrightarrow>
             (\<exists>later. started (queue_run maxConcurrent cont s) = started s @ later \<and>
                (y \<in> set later \<longrightarrow> x \<in> set (takeWhile (\<lambda>z. z \<noteq> y) later))))
       \<and> (\<forall>x y cont.
             x \<in> set (queue s) \<and> priority y < priority x \<and> ClearQueue \<notin> set cont \<longrightarrow>
             (\<exists>later. started (queue_run maxConcurrent cont s) = started s @ later \<and>
                (y \<in> set later \<longrightarrow> x \<in> set (takeWhile (\<lambda>z. z \<noteq> y) later))))"
proof -
  have "pending_sorted (queue queue_initial)"
    by (simp add: pending_sorted_def queue_initial_def)
  then have sorted: "pending_sorted (queue s)"
    unfolding assms by (rule pending_sorted_run)
  have front: "\<forall>first rest. queue s = first # rest \<longrightarrow> (\<forall>x \<in> set rest. priority x \<le> priority first)"
    using sorted by (auto simp: pending_sorted_def)
  have step: "dispatch_loop maxConcurrent t =
               (if task_throws first
                then fold enqueue_insert (task_enqueues first)
                       (t\<lparr>queue := rest, activeWorkers := activeWorkers t + 1,
                           started := started t @ [first]\<rparr>)
                else dispatch_loop maxConcurrent
                       (fold enqueue_insert (task_enqueues first)
                          (t\<lparr>queue := rest, activeWorkers := activeWorkers t + 1,
                              started := started t @ [first]\<rparr>)))"
    if "queue t = first # rest \<and> activeWorkers t < maxConcurrent" for t first rest
    using that by (simp add: dispatch_loop_step dispatch_one_def)
  have stop: "started (dispatch_loop maxConcurrent t) = started t \<and>
             queue (dispatch_loop maxConcurrent t) = queue t"
    if "queue t = [] \<or> maxConcurrent \<le> activeWorkers t" for t
    using that by (auto simp: dispatch_loop_stop)
  have order: "\<exists>later. started (queue_run maxConcurrent cont s) = started s @ later \<and>
                (y \<in> set later \<longrightarrow> x \<in> set (takeWhile (\<lambda>z. z \<noteq> y) later))"
    if "queue s = a @ x # b \<and> y \<notin> set a \<and> x \<noteq> y \<and> priority y \<le> priority x \<and>
             ClearQueue \<notin> set cont" for x y a b cont
    using that dispatch_order [OF sorted, of a x b y cont maxConcurrent] by blast
  have higher: "\<exists>later. started (queue_run maxConcurrent cont s) = started s @ later \<and>
                (y \<in> set later \<longrightarrow> x \<in> set (takeWhile (\<lambda>z. z \<noteq> y) later))"
    if "x \<in> set (queue s) \<and> priority y < priority x \<and> ClearQueue \<notin> set cont" for x y cont
    using that higher_priority_first [OF sorted, of x y cont maxConcurrent] by blast
  have ins1: "queue (enqueue_insert item s) =
           takeWhile (\<lambda>x. \<not> priority x < priority item) (queue s) @ item #
           dropWhile (\<lambda>x. \<not> priority x < priority item) (queue s)"
    using insert_item_takeWhile [of item "queue s"] by (simp add: enqueue_insert_def)
  have ins2: "queue (enqueue_insert item s) =
           filter (\<lambda>x. priority item \<le> priority x) (queue s) @ item #
           filter (\<lambda>x. priority x < priority item) (queue s)"
    using insert_item_filter [OF sorted, of item] by (simp add: enqueue_insert_def)
  show ?thesis
    using sorted ins1 ins2 front step stop dispatch_loop_plain order higher by blast
qed

theorem priority_order_witness:
  "(let a = QueueItem ''a'' 1 False []; b = QueueItem ''b'' 5 False []; c = QueueItem ''c'' 3 False [];
        d = QueueItem ''d'' 5 False []; e = QueueItem ''e'' 5 True []; f = QueueItem ''f'' 5 False [];
        s = queue_run 2 [Enqueue a, Enqueue b, Enqueue c, Enqueue d, Enqueue e] queue_initial;
        s' = queue_run 2 [Outcome True, Finally, Enqueue f, Outcome False, Finally, Finally] s
    in started s = [a, b] \<and> queue s = [d, e, c] \<and> pending_sorted (queue s)
     \<and> queue (enqueue_insert f s) = [d, e, f, c]
     \<and> started (dispatch_loop 2 (s\<lparr>queue := [d, f, c], activeWorkers := 0\<rparr>)) = [a, b, d, f]
     \<and> queue (dispatch_loop 2 (s\<lparr>queue := [d, f, c], activeWorkers := 0\<rparr>)) = [c]
     \<and> started s' = started s @ [d, e, f]
     \<and> queue s' = [c]
     \<and> d \<in> set (takeWhile (\<lambda>z. z \<noteq> e) [d, e, f])
     \<and> e \<in> set (takeWhile (\<lambda>z. z \<noteq> f) [d, e, f]))"
proof -
  define a where "a = QueueItem ''a'' 1 False []"
  define b where "b = QueueItem ''b'' 5 False []"
  define c where "c = QueueItem ''c'' 3 False []"
  define d where "d = QueueItem ''d'' 5 False []"
  define e where "e = QueueItem ''e'' 5 True []"
  define f where "f = QueueItem ''f'' 5 False []"
  note items = a_def b_def c_def d_def e_def f_def
  define s where "s = queue_run 2 [Enqueue a, Enqueue b, Enqueue c, Enqueue d, Enqueue e] queue_initial"
  define cont where "cont = [Outcome True, Finally, Enqueue f, Outcome False, Finally, Finally]"
  have s: "s = \<lparr>queue = [d, e, c], isProcessing = False, activeWorkers = 2, completedTasks = 0,
      failedTasks = 0, started = [a, b]\<rparr>"
    unfolding s_def by (simp add: queue_eval queue_initial_def items)
  have s': "queue_run 2 cont s = \<lparr>queue = [c], isProcessing = False, activeWorkers = 2, completedTasks = 1,
      failedTasks = 1, started = [a, b, d, e, f]\<rparr>"
    unfolding s cont_def by (simp add: queue_eval items)
  note inst = priority_order [OF s_def, of f]
  have "\<forall>x \<in> set (queue (s\<lparr>queue := [d, f, c], activeWorkers := 0\<rparr>)).
      task_enqueues x = [] \<and> \<not> task_throws x"
    by (simp add: items)
  from inst [THEN conjunct2, THEN conjunct2, THEN conjunct2, THEN conjunct2, THEN conjunct2,
        THEN conjunct2, THEN conjunct1, THEN spec, THEN mp, OF this]
  have plain: "started (dispatch_loop 2 (s\<lparr>queue := [d, f, c], activeWorkers := 0\<rparr>)) = [a, b, d, f]
      \<and> queue (dispatch_loop 2 (s\<lparr>queue := [d, f, c], activeWorkers := 0\<rparr>)) = [c]"
    by (simp add: s)
  have "queue s = [] @ d # [e, c] \<and> e \<notin> set [] \<and> d \<noteq> e \<and> priority e \<le> priority d \<and>
      ClearQueue \<notin> set cont"
    by (simp add: s cont_def) (simp add: items)
  from inst [THEN conjunct2, THEN conjunct2, THEN conjunct2, THEN conjunct2, THEN conjunct2,
        THEN conjunct2, THEN conjunct2, THEN conjunct1, rule_format, OF this]
  have order: "\<exists>later. started (queue_run 2 cont s) = started s @ later \<and>
      (e \<in> set later \<longrightarrow> d \<in> set (takeWhile (\<lambda>z. z \<noteq> e) later))" .
  then have de: "d \<in> set (takeWhile (\<lambda>z. z \<noteq> e) [d, e, f])"
    by (simp add: s' s) (simp add: items)
  have ef: "e \<in> set (takeWhile (\<lambda>z. z \<noteq> f) [d, e, f])"
    by (simp add: items)
  have sorted: "pending_sorted (queue s)"
    by (rule inst [THEN conjunct1])
  have ins: "queue (enqueue_insert f s) = [d, e, f, c]"
    using inst [THEN conjunct2, THEN conjunct1] by (simp add: s items)
  show ?thesis
    unfolding Let_def items [symmetric] s_def [symmetric] cont_def [symmetric]
    using sorted ins plain de ef by (simp add: s s' [unfolded s])
qed

section \<open>Properties of the rate limiter\<close>

lemma set_update_alist: "set (AList.update k v al) \<subseteq> insert (k, v) (set al)"
  by (induction al) auto

lemma set_delete_alist: "set (AList.delete k al) \<subseteq> set al"
  by (auto simp: AList.delete_eq)

lemma within_limits_update:
  assumes "within_limits config r"
    and "int (length (timestamps d)) \<le> maxRequests config"
    and "int (length (burstTimestamps d)) \<le> burstCapacity config"
  shows "within_limits config (AList.update ip d r)"
  using assms set_update_alist [of ip d r] unfolding within_limits_def by fastforce

lemma within_limits_delete:
  "within_limits config r \<Longrightarrow> within_limits config (AList.delete ip r)"
  using set_delete_alist [of ip r] unfolding within_limits_def by fastforce

lemma within_limits_lookup:
  assumes "within_limits config r" and "map_of r ip = Some d"
  shows "int (length (timestamps d)) \<le> maxRequests config"
    and "int (length (burstTimestamps d)) \<le> burstCapacity config"
  using assms map_of_SomeD [OF assms(2)] unfolding within_limits_def by fastforce+

lemma length_filter_int_le: "int (length xs) \<le> n \<Longrightarrow> int (length (filter P xs)) \<le> n"
  using length_filter_le [of P xs] by linarith

lemma pruned_within:
  assumes "within_limits config r"
  shows "int (length (timestamps (pruned config now (record_of r ip)))) \<le> maxRequests config \<or>
         map_of r ip = None"
    and "int (length (burstTimestamps (pruned config now (record_of r ip)))) \<le> burstCapacity config \<or>
         map_of r ip = None"
  using within_limits_lookup [OF assms, of ip]
  by (auto simp: pruned_def record_of_def intro!: length_filter_int_le split: option.split)

lemma RateLimitData_updates:
  "(d :: RateLimitData)\<lparr>timestamps := a, burstTimestamps := b\<rparr> = \<lparr>timestamps = a, burstTimestamps = b\<rparr>"
  by (cases d) simp

lemma isAllowed_cases:
  "isAllowed config now ip r =
     (let p = pruned config now (record_of r ip);
          r1 = (if map_of r ip = None then r else AList.update ip p r)
      in if int (length (burstTimestamps p)) \<ge> burstCapacity config then
           (\<lparr>allowed = False,
             retryAfter = retry_seconds (js_min (burstTimestamps p)) (burstWindow config) now,
             remaining = 0, limit = maxRequests config,
             reset = reset_at now (retry_seconds (js_min (burstTimestamps p)) (burstWindow config) now)\<rparr>, r1)
         else if int (length (timestamps p)) \<ge> maxRequests config then
           (\<lparr>allowed = False,
             retryAfter = retry_seconds (js_min (timestamps p)) (timeWindow config) now,
             remaining = 0, limit = maxRequests config,
             reset = reset_at now (retry_seconds (js_min (timestamps p)) (timeWindow config) now)\<rparr>, r1)
         else
           (\<lparr>allowed = True, retryAfter = Fin 0,
             remaining = max 0 (maxRequests config - int (length (timestamps p @ [now]))),
             limit = maxRequests config, reset = Fin (now + timeWindow config)\<rparr>,
            AList.update ip \<lparr>timestamps = timestamps p @ [now],
                              burstTimestamps = burstTimestamps p @ [now]\<rparr> r))"
  unfolding isAllowed_def Let_def pruned_def record_of_def
  by (simp add: RateLimitData_updates split: option.split)

lemma isAllowed_within:
  assumes "within_limits config r"
  shows "within_limits config (snd (isAllowed config now ip r))"
proof -
  let ?p = "pruned config now (record_of r ip)"
  have r1: "within_limits config (if map_of r ip = None then r else AList.update ip ?p r)"
    using assms pruned_within [OF assms, of now ip] by (auto intro!: within_limits_update)
  have r2: "\<not> int (length (burstTimestamps ?p)) \<ge> burstCapacity config \<Longrightarrow>
            \<not> int (length (timestamps ?p)) \<ge> maxRequests config \<Longrightarrow>
      within_limits config (AList.update ip \<lparr>timestamps = timestamps ?p @ [now],
                              burstTimestamps = burstTimestamps ?p @ [now]\<rparr> r)"
    using assms by (intro within_limits_update) simp_all
  show ?thesis
    using r1 r2 by (simp add: isAllowed_cases Let_def)
qed

lemma cleanup_entry_within:
  assumes "within_limits config r"
    and "int (length (timestamps d)) \<le> maxRequests config"
    and "int (length (burstTimestamps d)) \<le> burstCapacity config"
  shows "within_limits config (cleanup_entry config now (ip, d) r)"
proof -
  let ?d2 = "d\<lparr>timestamps := filter (\<lambda>ts. now - ts < timeWindow config) (timestamps d),
               burstTimestamps := filter (\<lambda>ts. now - ts < burstWindow config) (burstTimestamps d)\<rparr>"
  have u: "within_limits config (AList.update ip ?d2 r)"
    using assms(2,3) by (intro within_limits_update [OF assms(1)]) (simp_all add: length_filter_int_le)
  show ?thesis
    using u within_limits_delete [OF u, of ip] by (auto simp: cleanup_entry_def Let_def)
qed

lemma cleanup_fold_within:
  assumes "within_limits config r" and "within_limits config xs"
  shows "within_limits config (fold (cleanup_entry config now) xs r)"
  using assms
proof (induction xs arbitrary: r)
  case Nil
  then show ?case by simp
next
  case (Cons x xs)
  obtain ip d where x: "x = (ip, d)" by (cases x)
  have d: "int (length (timestamps d)) \<le> maxRequests config"
    "int (length (burstTimestamps d)) \<le> burstCapacity config"
    using Cons.prems(2) by (simp_all add: within_limits_def x)
  have xs: "within_limits config xs"
    using Cons.prems(2) by (simp add: within_limits_def)
  show ?case
    using Cons.IH [OF cleanup_entry_within [OF Cons.prems(1) d] xs] by (simp add: x)
qed

lemma cleanup_within:
  "within_limits config r \<Longrightarrow> within_limits config (cleanup config now r)"
  unfolding cleanup_def by (rule cleanup_fold_within)

lemma rl_run_within: "within_limits config (rl_run config evs)"
proof -
  have "within_limits config r \<Longrightarrow> within_limits config (fold (rl_step config) evs r)" for r
  proof (induction evs arbitrary: r)
    case Nil
    then show ?case by simp
  next
    case (Cons ev evs)
    have "within_limits config (rl_step config ev r)"
      using Cons.prems by (cases ev) (simp_all add: isAllowed_within cleanup_within)
    then show ?case using Cons.IH by simp
  qed
  from this [of "[]"] show ?thesis by (simp add: rl_run_def within_limits_def)
qed

lemma js_min_Min: "xs \<noteq> [] \<Longrightarrow> js_min xs = Fin (Min (set xs))"
proof (induction xs)
  case Nil
  then show ?case by simp
next
  case (Cons x xs)
  then show ?case by (cases "xs = []") (simp_all add: min_def)
qed

lemma retry_seconds_ceiling:
  "retry_seconds (Fin t) window now = Fin \<lceil>real_of_int (t + window - now) / 1000\<rceil>"
  using ceiling_divide_eq_div [where ?'a = real, of "t + window - now" 1000]
  by (simp add: retry_seconds_def)

lemma record_of_unknown:
  "map_of r ip = None \<Longrightarrow> pruned config now (record_of r ip) = \<lparr>timestamps = [], burstTimestamps = []\<rparr>"
  by (simp add: pruned_def record_of_def)

text \<open>
  Claim C6 (the decision of \<open>check\<close>). For a limiter with positive \<open>burstCapacity\<close> and
  \<open>maxRequests\<close>, in any state reached from the empty one by checks and cleanups, with
  \<open>sustained\<close> and \<open>burst\<close> the client's two sequences pruned to their windows relative
  to \<open>now\<close>: when \<open>burst\<close> has \<open>burstCapacity\<close> entries the request is denied with
  \<open>remaining = 0\<close> and \<open>retryAfter\<close> the ceiling, in seconds, of the time until the
  oldest burst timestamp leaves the burst window, whatever \<open>sustained\<close> holds; otherwise,
  when \<open>sustained\<close> has \<open>maxRequests\<close> entries, it is denied in the same way against
  the sustained window; otherwise \<open>now\<close> is recorded in both sequences and the request
  is allowed with \<open>remaining = maxRequests -\<close> the number of sustained entries, the new
  one included, and \<open>reset = now + timeWindow\<close>. In each case the pruned sequences are
  what is stored.
\<close>

theorem check_decision:
  assumes burst_pos: "0 < burstCapacity config" and sustained_pos: "0 < maxRequests config"
    and reach: "requests = rl_run config evs"
    and sustained: "sustained = filter (\<lambda>ts. now - ts < timeWindow config) (timestamps (record_of requests ip))"
    and burst: "burst = filter (\<lambda>ts. now - ts < burstWindow config) (burstTimestamps (record_of requests ip))"
    and result: "(r, requests') = isAllowed config now ip requests"
  shows "(int (length burst) = burstCapacity config \<longrightarrow>
            \<not> allowed r \<and> remaining r = 0
          \<and> retryAfter r = Fin \<lceil>real_of_int (Min (set burst) + burstWindow config - now) / 1000\<rceil>
          \<and> map_of requests' ip = Some \<lparr>timestamps = sustained, burstTimestamps = burst\<rparr>)
       \<and> (int (length burst) \<noteq> burstCapacity config \<and> int (length sustained) = maxRequests config \<longrightarrow>
            \<not> allowed r \<and> remaining r = 0
          \<and> retryAfter r = Fin \<lceil>real_of_int (Min (set sustained) + timeWindow config - now) / 1000\<rceil>
          \<and> map_of requests' ip = Some \<lparr>timestamps = sustained, burstTimestamps = burst\<rparr>)
       \<and> (int (length burst) \<noteq> burstCapacity config \<and> int (length sustained) \<noteq> maxRequests config \<longrightarrow>
            allowed r \<and> retryAfter r = Fin 0
          \<and> remaining r = maxRequests config - int (length (sustained @ [now]))
          \<and> reset r = Fin (now + timeWindow config)
          \<and> map_of requests' ip =
              Some \<lparr>timestamps = sustained @ [now], burstTimestamps = burst @ [now]\<rparr>)"
proof -
  let ?p = "pruned config now (record_of requests ip)"
  have p: "?p = \<lparr>timestamps = sustained, burstTimestamps = burst\<rparr>"
    by (simp add: pruned_def sustained burst)
  have inv: "within_limits config requests"
    unfolding reach by (rule rl_run_within)
  have unknown: "map_of requests ip = None \<Longrightarrow> sustained = [] \<and> burst = []"
    using record_of_unknown [of requests ip config now] p by simp
  have le_b: "int (length burst) \<le> burstCapacity config"
    using pruned_within(2) [OF inv, of now ip] unknown burst_pos p by auto
  have le_s: "int (length sustained) \<le> maxRequests config"
    using pruned_within(1) [OF inv, of now ip] unknown sustained_pos p by auto
  have known_b: "map_of requests ip \<noteq> None \<and> burst \<noteq> []"
    if "int (length burst) = burstCapacity config"
  proof -
    have "burst \<noteq> []" using that burst_pos by auto
    then show ?thesis using unknown by blast
  qed
  have known_s: "map_of requests ip \<noteq> None \<and> sustained \<noteq> []"
    if "int (length sustained) = maxRequests config"
  proof -
    have "sustained \<noteq> []" using that sustained_pos by auto
    then show ?thesis using unknown by blast
  qed
  note closed = isAllowed_cases [of config now ip requests, unfolded Let_def p, folded result]
  have c1: "int (length burst) = burstCapacity config \<longrightarrow>
            \<not> allowed r \<and> remaining r = 0
          \<and> retryAfter r = Fin \<lceil>real_of_int (Min (set burst) + burstWindow config - now) / 1000\<rceil>
          \<and> map_of requests' ip = Some \<lparr>timestamps = sustained, burstTimestamps = burst\<rparr>"
    using closed known_b
    by (auto simp: js_min_Min retry_seconds_ceiling update_conv')
  have c2: "int (length burst) \<noteq> burstCapacity config \<and> int (length sustained) = maxRequests config \<longrightarrow>
            \<not> allowed r \<and> remaining r = 0
          \<and> retryAfter r = Fin \<lceil>real_of_int (Min (set sustained) + timeWindow config - now) / 1000\<rceil>
          \<and> map_of requests' ip = Some \<lparr>timestamps = sustained, burstTimestamps = burst\<rparr>"
    using closed known_s le_b
    by (auto simp: js_min_Min retry_seconds_ceiling update_conv')
  have c3: "int (length burst) \<noteq> burstCapacity config \<and> int (length sustained) \<noteq> maxRequests config \<longrightarrow>
            allowed r \<and> retryAfter r = Fin 0
          \<and> remaining r = maxRequests config - int (length (sustained @ [now]))
          \<and> reset r = Fin (now + timeWindow config)
          \<and> map_of requests' ip =
              Some \<lparr>timestamps = sustained @ [now], burstTimestamps = burst @ [now]\<rparr>"
    using closed le_b le_s
    by (auto simp: update_conv')
  show ?thesis using c1 c2 c3 by blast
qed

theorem check_decision_witness:
  "(let requests = rl_run rateLimiter_config
                     [Check ''c'' 0, Check ''c'' 100, Check ''c'' 200, Check ''c'' 300, Check ''c'' 400];
        denied = isAllowed rateLimiter_config 500 ''c'' requests;
        later = isAllowed rateLimiter_config 10450 ''c'' requests
    in 0 < burstCapacity rateLimiter_config \<and> 0 < maxRequests rateLimiter_config
     \<and> requests = [(''c'', \<lparr>timestamps = [0, 100, 200, 300, 400],
                            burstTimestamps = [0, 100, 200, 300, 400]\<rparr>)]
     \<and> \<not> allowed (fst denied) \<and> remaining (fst denied) = 0 \<and> retryAfter (fst denied) = Fin 10
     \<and> snd denied = requests
     \<and> allowed (fst later) \<and> remaining (fst later) = 4 \<and> reset (fst later) = Fin 70450
     \<and> snd later = [(''c'', \<lparr>timestamps = [0, 100, 200, 300, 400, 10450],
                             burstTimestamps = [10450]\<rparr>)])"
proof -
  define requests where "requests = rl_run rateLimiter_config
                     [Check ''c'' 0, Check ''c'' 100, Check ''c'' 200, Check ''c'' 300, Check ''c'' 400]"
  define st :: "int list \<Rightarrow> requests"
    where "st ts = [(''c'', \<lparr>timestamps = ts, burstTimestamps = ts\<rparr>)]" for ts
  have s1: "snd (isAllowed rateLimiter_config 0 ''c'' []) = st [0]"
    by (simp add: isAllowed_def rateLimiter_config_def st_def Let_def)
  have s2: "snd (isAllowed rateLimiter_config 100 ''c'' (st [0])) = st [0, 100]"
    by (simp add: isAllowed_def rateLimiter_config_def st_def Let_def)
  have s3: "snd (isAllowed rateLimiter_config 200 ''c'' (st [0, 100])) = st [0, 100, 200]"
    by (simp add: isAllowed_def rateLimiter_config_def st_def Let_def)
  have s4: "snd (isAllowed rateLimiter_config 300 ''c'' (st [0, 100, 200])) = st [0, 100, 200, 300]"
    by (simp add: isAllowed_def rateLimiter_config_def st_def Let_def)
  have s5: "snd (isAllowed rateLimiter_config 400 ''c'' (st [0, 100, 200, 300])) = st [0, 100, 200, 300, 400]"
    by (simp add: isAllowed_def rateLimiter_config_def st_def Let_def)
  have r: "requests = st [0, 100, 200, 300, 400]"
    unfolding requests_def rl_run_def by (simp add: s1 s2 s3 s4 s5)
  have pos: "0 < burstCapacity rateLimiter_config" "0 < maxRequests rateLimiter_config"
    by (simp_all add: rateLimiter_config_def)
  have rec: "record_of requests ''c'' =
      \<lparr>timestamps = [0, 100, 200, 300, 400], burstTimestamps = [0, 100, 200, 300, 400]\<rparr>"
    by (simp add: r st_def record_of_def)
  have w1: "filter (\<lambda>ts. 500 - ts < timeWindow rateLimiter_config) (timestamps (record_of requests ''c'')) =
      [0, 100, 200, 300, 400]"
    "filter (\<lambda>ts. 500 - ts < burstWindow rateLimiter_config) (burstTimestamps (record_of requests ''c'')) =
      [0, 100, 200, 300, 400]"
    by (simp_all add: rec rateLimiter_config_def)
  have w2: "filter (\<lambda>ts. 10450 - ts < timeWindow rateLimiter_config) (timestamps (record_of requests ''c'')) =
      [0, 100, 200, 300, 400]"
    "filter (\<lambda>ts. 10450 - ts < burstWindow rateLimiter_config) (burstTimestamps (record_of requests ''c'')) = []"
    by (simp_all add: rec rateLimiter_config_def)
  note denied = check_decision [OF pos requests_def w1 [symmetric] prod.collapse]
  note later = check_decision [OF pos requests_def w2 [symmetric] prod.collapse]
  have d: "isAllowed rateLimiter_config 500 ''c'' (st [0, 100, 200, 300, 400]) =
      (\<lparr>allowed = False, retryAfter = Fin 10, remaining = 0, limit = 10, reset = Fin 10500\<rparr>,
       st [0, 100, 200, 300, 400])"
    by (simp add: isAllowed_def rateLimiter_config_def st_def Let_def retry_seconds_def reset_at_def)
  have l: "isAllowed rateLimiter_config 10450 ''c'' (st [0, 100, 200, 300, 400]) =
      (\<lparr>allowed = True, retryAfter = Fin 0, remaining = 4, limit = 10, reset = Fin 70450\<rparr>,
       [(''c'', \<lparr>timestamps = [0, 100, 200, 300, 400, 10450], burstTimestamps = [10450]\<rparr>)])"
    by (simp add: isAllowed_def rateLimiter_config_def st_def Let_def)
  show ?thesis
    unfolding Let_def requests_def [symmetric]
    using denied later pos by (simp add: r d l) (simp add: st_def)
qed

end
